theory Spec2Isabelle
  imports Complex_Main "HOL-Library.Word" "HOL-Library.Signed_Division"
begin

unbundle bit_operations_syntax

section \<open>Data model of \<open>PixelBits.cpp\<close>\<close>

text \<open>
  The SDL types are declared by the SDL 1.2 headers, not by this repository. Only the
  fields the code reads are kept. \<open>SDL_Rect\<close> has 16-bit fields (\<open>Sint16 x, y\<close> and
  \<open>Uint16 w, h\<close>); every use below first promotes them to the C type \<open>int\<close>, and sums
  and differences of such values are far from the limits of a 32-bit \<open>int\<close>, so the
  \<open>int\<close> variables of the source are mathematical integers here. A bitmap takes its
  width and height from an \<open>SDL_Rect\<close>, and the intersection of two overlapping boxes
  is no larger than either, so the stores into the fields of \<open>bounding_box1\<close>,
  \<open>bounding_box2\<close> and \<open>intersection\<close> keep their values. C division and remainder
  truncate towards zero: \<open>sdiv\<close> and \<open>smod\<close>.
\<close>

type_synonym Uint8 = "8 word"
type_synonym Uint32 = "32 word"

record SDL_Rect =
  rect_x :: int
  rect_y :: int
  rect_w :: int
  rect_h :: int

text \<open>\<open>surface->format->BitsPerPixel\<close>, \<open>surface->format->colorkey\<close>, \<open>surface->w\<close>
  and the byte buffer \<open>surface->pixels\<close>.\<close>

record SDL_Surface =
  BitsPerPixel :: Uint8
  colorkey :: Uint32
  surface_w :: int
  pixels :: "Uint8 list"

text \<open>Modelled from the spec: \<open>PixelBits.h\<close> is not among the sources. The members of
  class \<open>PixelBits\<close> are those \<open>PixelBits.cpp\<close> uses, with the types of their uses
  and of section 3 of the spec: \<open>width\<close>, \<open>height\<close> and \<open>nb_integers_per_row\<close> are
  \<open>int\<close>, \<open>bits\<close> is the array of rows, each row an array of unsigned 32-bit
  masks.\<close>

record PixelBits =
  width :: int
  height :: int
  nb_integers_per_row :: int
  bits :: "Uint32 list list"

text \<open>
  What stops the program or leaves the defined behaviour of C++:
  \<open>UnsupportedFormat\<close> is the \<open>DIE\<close> of the constructor, \<open>BadAlloc\<close> an array
  \<open>new\<close> of negative size, \<open>OutOfBounds\<close> an array access outside the allocated
  elements, \<open>UndefinedShift\<close> a shift of a 32-bit value by 32 bits or more.
\<close>

datatype error = UnsupportedFormat | BadAlloc | OutOfBounds | UndefinedShift

definition read_at :: "'a list \<Rightarrow> int \<Rightarrow> error + 'a" where
  "read_at xs i =
     (if 0 \<le> i \<and> i < int (length xs) then Inr (xs ! nat i) else Inl OutOfBounds)"

definition write_at :: "'a list \<Rightarrow> int \<Rightarrow> 'a \<Rightarrow> error + 'a list" where
  "write_at xs i v =
     (if 0 \<le> i \<and> i < int (length xs) then Inr (xs[nat i := v]) else Inl OutOfBounds)"

definition shift_right :: "Uint32 \<Rightarrow> int \<Rightarrow> error + Uint32" where
  "shift_right v n =
     (if 0 \<le> n \<and> n < 32 then Inr (drop_bit (nat n) v) else Inl UndefinedShift)"

text \<open>Modelled from the spec: the macro \<open>DIE\<close> is defined outside the sources. By
  sections 4.1 and 7 of the spec construction fails there with
  \<open>UnsupportedFormatError\<close> and does not proceed: \<open>DIE\<close> ends the run with that
  error, whatever the message.\<close>

definition DIE :: "string \<Rightarrow> error + 'a" where
  "DIE message = Inl UnsupportedFormat"

text \<open>Modelled from the spec: the macros \<open>MAX\<close> and \<open>MIN\<close> are defined outside the
  sources. Section 4.2 of the spec has them compute the intersection of the two
  bounding boxes: they are the maximum and the minimum of their arguments (\<open>MAX\<close>
  and \<open>MIN\<close> are binders of HOL, hence the suffix).\<close>

definition MAX_macro :: "int \<Rightarrow> int \<Rightarrow> int" where
  "MAX_macro a b = max a b"

definition MIN_macro :: "int \<Rightarrow> int \<Rightarrow> int" where
  "MIN_macro a b = min a b"

text \<open>\<open>new Uint32[n]\<close>: \<open>n\<close> elements that are not initialised; \<open>junk\<close> gives
  whatever the fresh memory holds.\<close>

definition new_array :: "(nat \<Rightarrow> Uint32) \<Rightarrow> int \<Rightarrow> error + Uint32 list" where
  "new_array junk n = (if n < 0 then Inl BadAlloc else Inr (map junk [0..<nat n]))"

section \<open>The constructor: definitions\<close>

text \<open>Lines 20-23 (and again 146-149): \<open>n / 32\<close>, plus one when \<open>n % 32 != 0\<close>.\<close>

definition nb_masks :: "int \<Rightarrow> int" where
  "nb_masks n = (if n smod 32 \<noteq> 0 then n sdiv 32 + 1 else n sdiv 32)"

text \<open>
  The loop over \<open>j\<close> of lines 33-48. The state is the loop counter \<open>j\<close>, the word
  index \<open>k\<close>, the current \<open>mask\<close> (written \<open>msk\<close>), the row \<open>bits[i]\<close> and
  \<open>pixel_index\<close>; the result is the row and the \<open>pixel_index\<close> after the loop.
\<close>

function fill_row ::
  "Uint8 list \<Rightarrow> Uint8 \<Rightarrow> int \<Rightarrow> int \<Rightarrow> int \<Rightarrow> Uint32 \<Rightarrow> Uint32 list \<Rightarrow> int
     \<Rightarrow> error + (Uint32 list \<times> int)" where
  "fill_row pxs ck wd j k msk row pixel_index =
     (if j < wd then
        (let k1 = (if msk = 0 then k + 1 else k);
             mask1 = (if msk = 0 then 0x80000000 else msk)
         in case (if msk = 0 then write_at row k1 0 else Inr row) of
              Inl e \<Rightarrow> Inl e
            | Inr row1 \<Rightarrow>
         (case read_at pxs pixel_index of
              Inl e \<Rightarrow> Inl e
            | Inr px \<Rightarrow>
         (case (if px \<noteq> ck
                then (case read_at row1 k1 of
                        Inl e \<Rightarrow> Inl e
                      | Inr v \<Rightarrow> write_at row1 k1 (v OR mask1))
                else Inr row1) of
              Inl e \<Rightarrow> Inl e
            | Inr row2 \<Rightarrow>
                fill_row pxs ck wd (j + 1) k1 (drop_bit 1 mask1) row2 (pixel_index + 1))))
      else Inr (row, pixel_index))"
  by pat_completeness auto
termination
  by (relation "measure (\<lambda>(pxs, ck, wd, j, k, msk, row, pixel_index). nat (wd - j))") auto

text \<open>
  The loop over \<open>i\<close> of lines 29-50. \<open>rows\<close> holds \<open>bits[0]\<close> to \<open>bits[i - 1]\<close>.
\<close>

function fill_rows ::
  "(int \<Rightarrow> nat \<Rightarrow> Uint32) \<Rightarrow> SDL_Surface \<Rightarrow> Uint8 \<Rightarrow> int \<Rightarrow> int \<Rightarrow> int \<Rightarrow> int
     \<Rightarrow> Uint32 list list \<Rightarrow> int \<Rightarrow> error + Uint32 list list" where
  "fill_rows junk surface ck wd ht nb i rows pixel_index =
     (if i < ht then
        (case new_array (junk i) nb of
           Inl e \<Rightarrow> Inl e
         | Inr row0 \<Rightarrow>
        (case fill_row (pixels surface) ck wd 0 (- 1) 0 row0 pixel_index of
           Inl e \<Rightarrow> Inl e
         | Inr (row, pixel_index1) \<Rightarrow>
             fill_rows junk surface ck wd ht nb (i + 1) (rows @ [row])
               (pixel_index1 + (surface_w surface - wd))))
      else Inr rows)"
  by pat_completeness auto
termination
  by (relation "measure (\<lambda>(junk, surface, ck, wd, ht, nb, i, rows, pixel_index). nat (ht - i))")
     auto

text \<open>
  \<open>PixelBits::PixelBits(surface, image_position)\<close>, lines 8-50. \<open>junk i k\<close> is the
  content of element \<open>k\<close> of the freshly allocated row \<open>i\<close>.
\<close>

definition PixelBits_new ::
  "(int \<Rightarrow> nat \<Rightarrow> Uint32) \<Rightarrow> SDL_Surface \<Rightarrow> SDL_Rect \<Rightarrow> error + PixelBits" where
  "PixelBits_new junk surface image_position =
     (if BitsPerPixel surface \<noteq> 8
      then DIE ''This surface should have an 8-bit pixel format''
      else
        (let ck = (ucast (colorkey surface) :: Uint8);
             wd = rect_w image_position;
             ht = rect_h image_position;
             nb = nb_masks wd;
             pixel_index = rect_y image_position * surface_w surface + rect_x image_position
         in if ht < 0 then Inl BadAlloc
            else (case fill_rows junk surface ck wd ht nb 0 [] pixel_index of
                    Inl e \<Rightarrow> Inl e
                  | Inr rows \<Rightarrow>
                      Inr \<lparr>width = wd, height = ht, nb_integers_per_row = nb, bits = rows\<rparr>)))"

section \<open>Rectangle overlap\<close>

text \<open>\<open>PixelBits::check_rectangle_collision\<close>, lines 209-226.\<close>

definition check_rectangle_collision :: "SDL_Rect \<Rightarrow> SDL_Rect \<Rightarrow> bool" where
  "check_rectangle_collision rectangle1 rectangle2 =
     (let x1 = rect_x rectangle1;
          x2 = x1 + rect_w rectangle1;
          x3 = rect_x rectangle2;
          x4 = x3 + rect_w rectangle2;
          overlap_x = (x3 < x2 \<and> x1 < x4);
          y1 = rect_y rectangle1;
          y2 = y1 + rect_h rectangle1;
          y3 = rect_y rectangle2;
          y4 = y3 + rect_h rectangle2;
          overlap_y = (y3 < y2 \<and> y1 < y4)
      in overlap_x \<and> overlap_y)"

section \<open>The collision test\<close>

text \<open>
  The local variables of \<open>check_collision\<close> that the two loops read, as lines 101-166
  compute them (\<open>ix\<close>, \<open>iy\<close>, \<open>iw\<close> and \<open>ih\<close> are the fields of \<open>intersection\<close>).
  \<open>rows_a\<close> and \<open>rows_b\<close> are pointers into a \<open>bits\<close> array: the array and the index
  of the element pointed to.
\<close>

record row_roles =
  rows_a :: "Uint32 list list"
  rows_a_start :: int
  rows_b :: "Uint32 list list"
  rows_b_start :: int
  nb_masks_per_row_a :: int
  has_row_b_additional_mask :: bool
  nb_unused_masks_row_b :: int
  nb_unused_bits_row_b :: int
  nb_used_bits_row_b :: int
  intersection_h :: int

definition bounding_box :: "PixelBits \<Rightarrow> SDL_Rect \<Rightarrow> SDL_Rect" where
  "bounding_box p location = location\<lparr>rect_w := width p, rect_h := height p\<rparr>"

definition assign_rows :: "PixelBits \<Rightarrow> PixelBits \<Rightarrow> SDL_Rect \<Rightarrow> SDL_Rect \<Rightarrow> row_roles" where
  "assign_rows this other location1 location2 =
     (let bounding_box1 = bounding_box this location1;
          bounding_box2 = bounding_box other location2;
          ix = MAX_macro (rect_x bounding_box1) (rect_x bounding_box2);
          iy = MAX_macro (rect_y bounding_box1) (rect_y bounding_box2);
          iw = MIN_macro (rect_x bounding_box1 + rect_w bounding_box1)
                         (rect_x bounding_box2 + rect_w bounding_box2) - ix;
          ih = MIN_macro (rect_y bounding_box1 + rect_h bounding_box1)
                         (rect_y bounding_box2 + rect_h bounding_box2) - iy;
          offset_x1 = ix - rect_x bounding_box1;
          offset_y1 = iy - rect_y bounding_box1;
          offset_x2 = ix - rect_x bounding_box2;
          offset_y2 = iy - rect_y bounding_box2;
          nb_a = nb_masks iw
      in if rect_x bounding_box1 > rect_x bounding_box2
         then \<lparr>rows_a = bits this, rows_a_start = offset_y1,
               rows_b = bits other, rows_b_start = offset_y2,
               nb_masks_per_row_a = nb_a,
               has_row_b_additional_mask =
                 (nb_a + offset_x2 sdiv 32 + 1 < nb_integers_per_row other),
               nb_unused_masks_row_b = offset_x2 sdiv 32,
               nb_unused_bits_row_b = offset_x2 smod 32,
               nb_used_bits_row_b = 32 - offset_x2 smod 32,
               intersection_h = ih\<rparr>
         else \<lparr>rows_a = bits other, rows_a_start = offset_y2,
               rows_b = bits this, rows_b_start = offset_y1,
               nb_masks_per_row_a = nb_a,
               has_row_b_additional_mask =
                 (nb_a + offset_x1 sdiv 32 + 1 < nb_integers_per_row this),
               nb_unused_masks_row_b = offset_x1 sdiv 32,
               nb_unused_bits_row_b = offset_x1 smod 32,
               nb_used_bits_row_b = 32 - offset_x1 smod 32,
               intersection_h = ih\<rparr>)"

text \<open>The body of the loop over \<open>j\<close>, lines 184-196: the new value of \<open>collision\<close>.\<close>

definition compare_masks :: "row_roles \<Rightarrow> Uint32 list \<Rightarrow> Uint32 list \<Rightarrow> int \<Rightarrow> error + bool" where
  "compare_masks g bits_a bits_b j =
     (case read_at bits_a j of
        Inl e \<Rightarrow> Inl e
      | Inr mask_a \<Rightarrow>
     (case read_at bits_b (j + nb_unused_masks_row_b g) of
        Inl e \<Rightarrow> Inl e
      | Inr mask_b \<Rightarrow>
     (case (if has_row_b_additional_mask g
            then (case read_at bits_b (j + nb_unused_masks_row_b g + 1) of
                    Inl e \<Rightarrow> Inl e
                  | Inr next_mask_b \<Rightarrow> shift_right next_mask_b (nb_used_bits_row_b g))
            else Inr 0) of
        Inl e \<Rightarrow> Inl e
      | Inr next_mask_b_left \<Rightarrow>
     (case shift_right mask_a (nb_unused_bits_row_b g) of
        Inl e \<Rightarrow> Inl e
      | Inr mask_a_left \<Rightarrow>
          Inr ((mask_a_left AND mask_b) OR (mask_a AND next_mask_b_left) \<noteq> 0)))))"

text \<open>The loop over \<open>j\<close>, lines 177-197; it stops as soon as \<open>collision\<close> is set.\<close>

function check_masks :: "row_roles \<Rightarrow> Uint32 list \<Rightarrow> Uint32 list \<Rightarrow> int \<Rightarrow> error + bool" where
  "check_masks g bits_a bits_b j =
     (if j < nb_masks_per_row_a g then
        (case compare_masks g bits_a bits_b j of
           Inl e \<Rightarrow> Inl e
         | Inr collision \<Rightarrow>
             if collision then Inr True else check_masks g bits_a bits_b (j + 1))
      else Inr False)"
  by pat_completeness auto
termination
  by (relation "measure (\<lambda>(g, bits_a, bits_b, j). nat (nb_masks_per_row_a g - j))") auto

text \<open>The loop over \<open>i\<close>, lines 170-198.\<close>

function check_rows :: "row_roles \<Rightarrow> int \<Rightarrow> error + bool" where
  "check_rows g i =
     (if i < intersection_h g then
        (case read_at (rows_a g) (rows_a_start g + i) of
           Inl e \<Rightarrow> Inl e
         | Inr bits_a \<Rightarrow>
        (case read_at (rows_b g) (rows_b_start g + i) of
           Inl e \<Rightarrow> Inl e
         | Inr bits_b \<Rightarrow>
        (case check_masks g bits_a bits_b 0 of
           Inl e \<Rightarrow> Inl e
         | Inr collision \<Rightarrow>
             if collision then Inr True else check_rows g (i + 1))))
      else Inr False)"
  by pat_completeness auto
termination
  by (relation "measure (\<lambda>(g, i). nat (intersection_h g - i))") auto

text \<open>\<open>PixelBits::check_collision(other, location1, location2)\<close>, lines 98-201.\<close>

definition check_collision ::
  "PixelBits \<Rightarrow> PixelBits \<Rightarrow> SDL_Rect \<Rightarrow> SDL_Rect \<Rightarrow> error + bool" where
  "check_collision this other location1 location2 =
     (if \<not> check_rectangle_collision (bounding_box this location1)
                                      (bounding_box other location2)
      then Inr False
      else check_rows (assign_rows this other location1 location2) 0)"

text \<open>The equations of the four loops are recursive: they are unfolded by hand.\<close>

declare fill_row.simps [simp del]
declare fill_rows.simps [simp del]
declare check_masks.simps [simp del]
declare check_rows.simps [simp del]

section \<open>Pixels, frames and bitmaps\<close>

text \<open>
  The bit of column \<open>col\<close> in a row of masks: mask \<open>col / 32\<close>, counted from the most
  significant bit, as the constructor writes it (\<open>0x80000000\<close> is column 0).
\<close>

definition row_bit :: "Uint32 list \<Rightarrow> int \<Rightarrow> bool" where
  "row_bit row col = bit (row ! nat (col div 32)) (nat (31 - col mod 32))"

text \<open>The pixel (\<open>row\<close>, \<open>col\<close>) of a bitmap is opaque: it lies in the frame and its bit
  is set.\<close>

definition pixel_bit :: "PixelBits \<Rightarrow> int \<Rightarrow> int \<Rightarrow> bool" where
  "pixel_bit p row col \<longleftrightarrow>
     0 \<le> row \<and> row < height p \<and> 0 \<le> col \<and> col < width p \<and>
     row_bit (bits p ! nat row) col"

text \<open>The bitmap \<open>p\<close> placed at \<open>location\<close> has an opaque pixel at the point
  (\<open>px\<close>, \<open>py\<close>) of the plane.\<close>

definition opaque_at :: "PixelBits \<Rightarrow> SDL_Rect \<Rightarrow> int \<Rightarrow> int \<Rightarrow> bool" where
  "opaque_at p location px py = pixel_bit p (py - rect_y location) (px - rect_x location)"

text \<open>The shape the constructor gives a bitmap: positive size, \<open>height\<close> rows of
  \<open>nb_integers_per_row\<close> masks each, and the number of masks that lines 20-23 compute.\<close>

definition well_formed :: "PixelBits \<Rightarrow> bool" where
  "well_formed p \<longleftrightarrow>
     0 < width p \<and> 0 < height p \<and> nb_integers_per_row p = nb_masks (width p) \<and>
     int (length (bits p)) = height p \<and>
     list_all (\<lambda>row. int (length row) = nb_integers_per_row p) (bits p)"

text \<open>The byte the constructor reads for pixel (\<open>row\<close>, \<open>col\<close>) of the frame
  \<open>image_position\<close>, and the frames all of whose bytes lie in the buffer.\<close>

definition source_index :: "SDL_Surface \<Rightarrow> SDL_Rect \<Rightarrow> int \<Rightarrow> int \<Rightarrow> int" where
  "source_index surface image_position row col =
     (rect_y image_position + row) * surface_w surface + rect_x image_position + col"

definition frame_in_buffer :: "SDL_Surface \<Rightarrow> SDL_Rect \<Rightarrow> bool" where
  "frame_in_buffer surface image_position \<longleftrightarrow>
     0 < rect_w image_position \<and> 0 < rect_h image_position \<and>
     (\<forall>row col. 0 \<le> row \<and> row < rect_h image_position \<and>
                 0 \<le> col \<and> col < rect_w image_position \<longrightarrow>
        0 \<le> source_index surface image_position row col \<and>
        source_index surface image_position row col < int (length (pixels surface)))"

text \<open>A row of masks holds the pixels of the \<open>wd\<close> bytes that start at index \<open>base\<close>
  of the buffer: it has \<open>nb_masks wd\<close> masks, the bit of each column below \<open>wd\<close> tells
  whether the byte differs from the colour key \<open>ck\<close>, and the bits of the columns from
  \<open>wd\<close> to the end of the last mask are 0.\<close>

definition row_built :: "SDL_Surface \<Rightarrow> Uint8 \<Rightarrow> int \<Rightarrow> int \<Rightarrow> Uint32 list \<Rightarrow> bool" where
  "row_built surface ck wd base row \<longleftrightarrow>
     int (length row) = nb_masks wd \<and>
     (\<forall>c. 0 \<le> c \<and> c < wd \<longrightarrow> (row_bit row c \<longleftrightarrow> pixels surface ! nat (base + c) \<noteq> ck)) \<and>
     (\<forall>c. wd \<le> c \<and> c < 32 * nb_masks wd \<longrightarrow> \<not> row_bit row c)"

text \<open>The bits of the columns from \<open>width\<close> to the end of the last mask of each row
  are 0, as the constructor leaves them.\<close>

definition trailing_bits_clear :: "PixelBits \<Rightarrow> bool" where
  "trailing_bits_clear p \<longleftrightarrow>
     (\<forall>row c. 0 \<le> row \<and> row < height p \<and> width p \<le> c \<and> c < 32 * nb_integers_per_row p \<longrightarrow>
        \<not> row_bit (bits p ! nat row) c)"

text \<open>
  Column \<open>c\<close> of a row of row a lies over column \<open>c\<close> plus the offset of row b. The two
  bits meet in the comparison of lines 184-196 when both are set and the bit of row b
  is in a mask the comparison reads: the mask \<open>j + nb_unused_masks_row_b\<close>, or the
  next one when \<open>has_row_b_additional_mask\<close> holds.
\<close>

definition columns_meet :: "row_roles \<Rightarrow> Uint32 list \<Rightarrow> Uint32 list \<Rightarrow> int \<Rightarrow> bool" where
  "columns_meet g bits_a bits_b c \<longleftrightarrow>
     row_bit bits_a c \<and>
     row_bit bits_b (c + (32 * nb_unused_masks_row_b g + nb_unused_bits_row_b g)) \<and>
     (has_row_b_additional_mask g \<or> c mod 32 + nb_unused_bits_row_b g < 32)"

text \<open>A position: only \<open>x\<close> and \<open>y\<close> of the rectangle are read by \<open>check_collision\<close>.\<close>

definition location :: "int \<Rightarrow> int \<Rightarrow> SDL_Rect" where
  "location px py = \<lparr>rect_x = px, rect_y = py, rect_w = 0, rect_h = 0\<rparr>"

text \<open>Bitmaps for concrete runs: a 2 x 1 frame whose second pixel is opaque, a 64 x 1
  frame whose pixel 32 is opaque, a 1 x 1 opaque frame, a 96 x 1 frame whose pixel 32
  is opaque, and a 128 x 1 frame whose pixel 64 is opaque.\<close>

definition frame_2x1 :: PixelBits where
  "frame_2x1 = \<lparr>width = 2, height = 1, nb_integers_per_row = 1, bits = [[0x40000000]]\<rparr>"

definition frame_64x1 :: PixelBits where
  "frame_64x1 =
     \<lparr>width = 64, height = 1, nb_integers_per_row = 2, bits = [[0, 0x80000000]]\<rparr>"

definition frame_1x1 :: PixelBits where
  "frame_1x1 = \<lparr>width = 1, height = 1, nb_integers_per_row = 1, bits = [[0x80000000]]\<rparr>"

definition frame_96x1 :: PixelBits where
  "frame_96x1 =
     \<lparr>width = 96, height = 1, nb_integers_per_row = 3, bits = [[0, 0x80000000, 0]]\<rparr>"

definition frame_128x1 :: PixelBits where
  "frame_128x1 =
     \<lparr>width = 128, height = 1, nb_integers_per_row = 4, bits = [[0, 0, 0x80000000, 0]]\<rparr>"

text \<open>A 3 x 2 surface with colour key 0, to run the constructor on.\<close>

definition surface_3x2 :: SDL_Surface where
  "surface_3x2 = \<lparr>BitsPerPixel = 8, colorkey = 0, surface_w = 3, pixels = [0, 1, 0, 1, 1, 0]\<rparr>"

text \<open>The same surface with 32 bits per pixel.\<close>

definition surface_32bpp :: SDL_Surface where
  "surface_32bpp = \<lparr>BitsPerPixel = 32, colorkey = 0, surface_w = 3, pixels = [0, 1, 0, 1, 1, 0]\<rparr>"

text \<open>A surface of one row of \<open>n\<close> pixels, all of the colour key except pixel
  \<open>k\<close>, and the frame that covers the first \<open>n\<close> columns and \<open>m\<close> rows of a
  surface.\<close>

definition strip_surface :: "nat \<Rightarrow> nat \<Rightarrow> SDL_Surface" where
  "strip_surface n k =
     \<lparr>BitsPerPixel = 8, colorkey = 0, surface_w = int n, pixels = (replicate n 0)[k := 1]\<rparr>"

definition frame :: "int \<Rightarrow> int \<Rightarrow> SDL_Rect" where
  "frame n m = \<lparr>rect_x = 0, rect_y = 0, rect_w = n, rect_h = m\<rparr>"

text \<open>Which of the two bitmaps lines 152-165 make row a (the one whose box starts
  further right) and which row b.\<close>

definition bitmap_a :: "PixelBits \<Rightarrow> PixelBits \<Rightarrow> SDL_Rect \<Rightarrow> SDL_Rect \<Rightarrow> PixelBits" where
  "bitmap_a this other location1 location2 =
     (if rect_x location1 > rect_x location2 then this else other)"

definition bitmap_b :: "PixelBits \<Rightarrow> PixelBits \<Rightarrow> SDL_Rect \<Rightarrow> SDL_Rect \<Rightarrow> PixelBits" where
  "bitmap_b this other location1 location2 =
     (if rect_x location1 > rect_x location2 then other else this)"

section \<open>Rectangle overlap: the half-open interval test\<close>

lemma check_rectangle_collision_iff:
  "check_rectangle_collision r1 r2 \<longleftrightarrow>
     rect_x r2 < rect_x r1 + rect_w r1 \<and> rect_x r1 < rect_x r2 + rect_w r2 \<and>
     rect_y r2 < rect_y r1 + rect_h r1 \<and> rect_y r1 < rect_y r2 + rect_h r2"
  by (simp add: check_rectangle_collision_def Let_def)

text \<open>
  C6: \<open>check_rectangle_collision\<close> is true exactly when
  \<open>rect2.x < rect1.x + rect1.w\<close>, \<open>rect1.x < rect2.x + rect2.w\<close>,
  \<open>rect2.y < rect1.y + rect1.h\<close> and \<open>rect1.y < rect2.y + rect2.h\<close>; two rectangles
  one of whose intervals ends where the other's begins are not overlapping.
\<close>

theorem check_rectangle_collision_half_open:
  "(check_rectangle_collision r1 r2 \<longleftrightarrow>
      rect_x r2 < rect_x r1 + rect_w r1 \<and> rect_x r1 < rect_x r2 + rect_w r2 \<and>
      rect_y r2 < rect_y r1 + rect_h r1 \<and> rect_y r1 < rect_y r2 + rect_h r2) \<and>
   (rect_x r2 = rect_x r1 + rect_w r1 \<or> rect_x r1 = rect_x r2 + rect_w r2 \<or>
    rect_y r2 = rect_y r1 + rect_h r1 \<or> rect_y r1 = rect_y r2 + rect_h r2 \<longrightarrow>
      \<not> check_rectangle_collision r1 r2)"
  by (auto simp add: check_rectangle_collision_iff)

theorem check_rectangle_collision_half_open_witness:
  "rect_x \<lparr>rect_x = 10, rect_y = 0, rect_w = 10, rect_h = 10\<rparr> =
     rect_x \<lparr>rect_x = 0, rect_y = 0, rect_w = 10, rect_h = 10\<rparr> +
     rect_w \<lparr>rect_x = 0, rect_y = 0, rect_w = 10, rect_h = 10\<rparr> \<and>
   \<not> check_rectangle_collision \<lparr>rect_x = 0, rect_y = 0, rect_w = 10, rect_h = 10\<rparr>
                                 \<lparr>rect_x = 10, rect_y = 0, rect_w = 10, rect_h = 10\<rparr>"
  using check_rectangle_collision_half_open
          [of "\<lparr>rect_x = 0, rect_y = 0, rect_w = 10, rect_h = 10\<rparr>"
              "\<lparr>rect_x = 10, rect_y = 0, rect_w = 10, rect_h = 10\<rparr>"]
  by simp

section \<open>The bounding-box prefilter\<close>

text \<open>
  C7: when the bounding boxes of the two bitmaps at their positions do not overlap,
  \<open>check_collision\<close> returns false, whatever the rows of masks of the two bitmaps
  hold.
\<close>

theorem check_collision_disjoint_boxes:
  "\<not> check_rectangle_collision (bounding_box this location1) (bounding_box other location2)
   \<Longrightarrow> check_collision (this\<lparr>bits := rows1\<rparr>) (other\<lparr>bits := rows2\<rparr>) location1 location2
         = Inr False"
  by (simp add: check_collision_def bounding_box_def)

theorem check_collision_disjoint_boxes_witness:
  "\<not> check_rectangle_collision (bounding_box frame_64x1 (location 0 0))
                                 (bounding_box frame_2x1 (location 64 0)) \<and>
   check_collision (frame_64x1\<lparr>bits := [[0xFFFFFFFF]]\<rparr>) (frame_2x1\<lparr>bits := []\<rparr>)
                   (location 0 0) (location 64 0) = Inr False"
proof -
  have disjoint: "\<not> check_rectangle_collision (bounding_box frame_64x1 (location 0 0))
                                               (bounding_box frame_2x1 (location 64 0))"
    by (simp add: check_rectangle_collision_iff bounding_box_def frame_64x1_def
                  frame_2x1_def location_def)
  show ?thesis
    using disjoint check_collision_disjoint_boxes [OF disjoint, of "[[0xFFFFFFFF]]" "[]"]
    by simp
qed

section \<open>The number of masks per row\<close>

lemma sdiv_32_nonneg: "0 \<le> n \<Longrightarrow> n sdiv 32 = n div (32::int)"
  by (cases "n = 0") (simp_all add: signed_divide_int_def)

lemma smod_32_nonneg: "0 \<le> n \<Longrightarrow> n smod 32 = n mod (32::int)"
  by (simp add: smod_mod_positive)

lemma nb_masks_div_mod:
  "0 \<le> n \<Longrightarrow> nb_masks n = (if n mod 32 \<noteq> 0 then n div 32 + 1 else n div 32)"
  by (simp only: nb_masks_def sdiv_32_nonneg smod_32_nonneg)

lemma nb_masks_nonneg:
  assumes "0 \<le> n"
  shows "nb_masks n = (n + 31) div 32"
proof -
  define q r where "q = n div 32" and "r = n mod 32"
  have n: "n = 32 * q + r" and r: "0 \<le> r" "r < 32"
    by (simp_all add: q_def r_def)
  have "(n + 31) div 32 = q + (r + 31) div 32"
    unfolding n by (simp add: add.assoc)
  moreover have "(r + 31) div 32 = (if r = 0 then 0 else 1)"
    using r by (auto simp: div_pos_pos_trivial intro!: int_div_pos_eq [where r = "r - 1"])
  ultimately show ?thesis
    using assms by (simp add: nb_masks_div_mod q_def r_def)
qed

lemma nb_masks_mono: "0 \<le> a \<Longrightarrow> a \<le> b \<Longrightarrow> nb_masks a \<le> nb_masks b"
  by (simp add: nb_masks_nonneg zdiv_mono1)

lemma nb_masks_pos: "0 < n \<Longrightarrow> 0 < nb_masks n"
  by (simp add: nb_masks_nonneg pos_imp_zdiv_pos_iff)

lemma nb_masks_offset:
  assumes "0 \<le> ob" and "0 \<le> iw"
  shows "nb_masks iw + ob div 32 \<le> nb_masks (ob + iw)"
proof -
  define u s where "u = ob div 32" and "s = ob mod 32"
  have ob: "ob = 32 * u + s" and s: "0 \<le> s"
    by (simp_all add: u_def s_def)
  have "(ob + iw + 31) div 32 = u + (s + iw + 31) div 32"
    unfolding ob by (simp add: add.assoc)
  moreover have "(iw + 31) div 32 \<le> (s + iw + 31) div 32"
    using s by (intro zdiv_mono1) simp_all
  ultimately show ?thesis
    using assms by (simp add: nb_masks_nonneg u_def)
qed

lemma PixelBits_new_fields:
  "PixelBits_new junk surface image_position = Inr p \<Longrightarrow>
     width p = rect_w image_position \<and> height p = rect_h image_position \<and>
     nb_integers_per_row p = nb_masks (rect_w image_position)"
  by (auto simp add: PixelBits_new_def DIE_def Let_def split: if_splits sum.splits)

text \<open>
  C8: for a frame of width \<open>w > 0\<close> the constructed bitmap has
  \<open>nb_integers_per_row = ceil (w / 32)\<close>: \<open>w / 32\<close> when \<open>w\<close> is a multiple of 32,
  and 1 when \<open>w = 1\<close>.
\<close>

theorem nb_integers_per_row_ceiling:
  assumes "PixelBits_new junk surface image_position = Inr p"
    and "0 < rect_w image_position"
  shows "nb_integers_per_row p = \<lceil>real_of_int (rect_w image_position) / 32\<rceil> \<and>
         (rect_w image_position mod 32 = 0 \<longrightarrow>
            nb_integers_per_row p = rect_w image_position div 32) \<and>
         (rect_w image_position = 1 \<longrightarrow> nb_integers_per_row p = 1)"
proof -
  define n where "n = rect_w image_position"
  define q r where "q = n div 32" and "r = n mod 32"
  have n: "n = 32 * q + r" and r: "0 \<le> r" "r < 32"
    by (simp_all add: q_def r_def)
  have nb: "nb_integers_per_row p = (if r \<noteq> 0 then q + 1 else q)"
    using assms PixelBits_new_fields [of junk surface image_position p]
    by (simp add: nb_masks_div_mod n_def q_def r_def)
  have quot: "real_of_int n / 32 = real_of_int q + real_of_int r / 32"
    unfolding n by simp
  have "\<lceil>real_of_int n / 32\<rceil> = (if r \<noteq> 0 then q + 1 else q)"
  proof (cases "r = 0")
    case True
    then show ?thesis by (simp add: quot)
  next
    case False
    with r have "0 < real_of_int r / 32" and "real_of_int r / 32 \<le> 1"
      by simp_all
    then have "\<lceil>real_of_int q + real_of_int r / 32\<rceil> = q + 1"
      by (intro ceiling_unique) simp_all
    with False show ?thesis by (simp add: quot)
  qed
  with nb have "nb_integers_per_row p = \<lceil>real_of_int n / 32\<rceil>"
    by simp
  moreover have "n mod 32 = 0 \<longrightarrow> nb_integers_per_row p = n div 32"
    using nb by (simp add: q_def r_def)
  moreover have "n = 1 \<longrightarrow> nb_integers_per_row p = 1"
    using nb by (simp add: q_def r_def)
  ultimately show ?thesis
    by (simp add: n_def)
qed

theorem nb_integers_per_row_ceiling_witness:
  "PixelBits_new (\<lambda>i k. 0xFFFFFFFF) surface_3x2 \<lparr>rect_x = 1, rect_y = 0, rect_w = 2, rect_h = 2\<rparr> =
     Inr \<lparr>width = 2, height = 2, nb_integers_per_row = 1, bits = [[0x80000000], [0x80000000]]\<rparr> \<and>
   0 < rect_w \<lparr>rect_x = 1, rect_y = 0, rect_w = 2, rect_h = 2\<rparr> \<and>
   nb_integers_per_row \<lparr>width = 2, height = 2, nb_integers_per_row = 1, bits = [[0x80000000], [0x80000000]]\<rparr> =
     \<lceil>real_of_int (rect_w \<lparr>rect_x = 1, rect_y = 0, rect_w = 2, rect_h = 2\<rparr>) / 32\<rceil>"
proof -
  have built: "PixelBits_new (\<lambda>i k. 0xFFFFFFFF) surface_3x2 \<lparr>rect_x = 1, rect_y = 0, rect_w = 2, rect_h = 2\<rparr> =
     Inr \<lparr>width = 2, height = 2, nb_integers_per_row = 1, bits = [[0x80000000], [0x80000000]]\<rparr>"
    by code_simp
  have pos: "0 < rect_w \<lparr>rect_x = 1, rect_y = 0, rect_w = 2, rect_h = 2\<rparr>"
    by simp
  show ?thesis
    using built pos nb_integers_per_row_ceiling [OF built pos] by blast
qed

section \<open>The constructor\<close>

subsection \<open>Columns, masks and bits\<close>

lemma split_32: "(n::int) = 32 * (n div 32) + n mod 32 \<and> 0 \<le> n mod 32 \<and> n mod 32 < 32"
  by simp

lemma word_bounds: "32 * (j div 32) \<le> j \<and> j < 32 * (j div 32 + 1)" for j :: int
proof -
  define q r where "q = j div 32" and "r = j mod 32"
  have "j = 32 * q + r" and "0 \<le> r" and "r < 32"
    by (simp_all add: q_def r_def)
  then have "32 * q \<le> j \<and> j < 32 * (q + 1)"
    by simp
  then show ?thesis
    by (simp only: q_def)
qed

lemma same_word_iff:
  "c div 32 = j div 32 \<and> c mod 32 = j mod 32 \<longleftrightarrow> c = (j::int)"
  by (metis div_mult_mod_eq)

lemma succ_div_mod_32:
  "(j + 1) mod 32 = (if j mod 32 = 31 then 0 else j mod 32 + 1)"
  "(j + 1) div 32 = (if j mod 32 = 31 then j div 32 + 1 else j div (32::int))"
proof -
  define q r where "q = j div 32" and "r = j mod 32"
  have j: "j = 32 * q + r" and r: "0 \<le> r" "r < 32"
    by (simp_all add: q_def r_def)
  show "(j + 1) mod 32 = (if j mod 32 = 31 then 0 else j mod 32 + 1)"
  proof (cases "r = 31")
    case True
    then have "j + 1 = 32 * (q + 1) + 0" using j by simp
    then have "(j + 1) mod 32 = 0" by (metis add.right_neutral mod_mult_self1_is_0)
    with True show ?thesis by (simp add: r_def)
  next
    case False
    have "(j + 1) mod 32 = r + 1"
      using j r False by (intro int_mod_pos_eq [where q = q]) simp_all
    with False show ?thesis by (simp add: r_def)
  qed
  show "(j + 1) div 32 = (if j mod 32 = 31 then j div 32 + 1 else j div 32)"
  proof (cases "r = 31")
    case True
    have "(j + 1) div 32 = q + 1"
      using j True by (intro int_div_pos_eq [where r = 0]) simp_all
    with True show ?thesis by (simp add: r_def q_def)
  next
    case False
    have "(j + 1) div 32 = q"
      using j r False by (intro int_div_pos_eq [where r = "r + 1"]) simp_all
    with False show ?thesis by (simp add: r_def q_def)
  qed
qed

lemma bit_single: "n < 32 \<Longrightarrow> bit (2 ^ m :: Uint32) n \<longleftrightarrow> n = m"
  by (auto simp add: bit_exp_iff)

lemma single_nonzero: "m < 32 \<Longrightarrow> (2 ^ m :: Uint32) \<noteq> 0"
  by simp

lemma drop_single:
  "m < 32 \<Longrightarrow> drop_bit 1 (2 ^ m :: Uint32) = (if m = 0 then 0 else 2 ^ (m - 1))"
  by (rule bit_word_eqI) (auto simp add: bit_drop_bit_eq bit_exp_iff)

lemma row_bit_clear:
  assumes "0 \<le> kk" and "nat kk < length row" and "0 \<le> c"
  shows "row_bit (row[nat kk := 0]) c \<longleftrightarrow> c div 32 \<noteq> kk \<and> row_bit row c"
proof (cases "c div 32 = kk")
  case True
  with assms show ?thesis by (simp add: row_bit_def)
next
  case False
  have "0 \<le> c div 32" using assms by (simp add: pos_imp_zdiv_nonneg_iff)
  with False assms have "nat (c div 32) \<noteq> nat kk" by simp
  with False show ?thesis by (simp add: row_bit_def)
qed

lemma row_bit_set:
  assumes "0 \<le> j" and "nat (j div 32) < length row" and "0 \<le> c"
  shows "row_bit (row[nat (j div 32) :=
                      row ! nat (j div 32) OR 2 ^ nat (31 - j mod 32)]) c
         \<longleftrightarrow> row_bit row c \<or> c = j"
proof (cases "c div 32 = j div 32")
  case True
  have "nat (31 - c mod 32) < 32" by simp
  moreover have "nat (31 - c mod 32) = nat (31 - j mod 32) \<longleftrightarrow> c mod 32 = j mod 32"
    using split_32 [of c] split_32 [of j] by auto
  ultimately show ?thesis
    using True assms same_word_iff [of c j]
    by (auto simp add: row_bit_def bit_or_iff bit_single)
next
  case False
  have "0 \<le> c div 32" "0 \<le> j div 32"
    using assms by (simp_all add: pos_imp_zdiv_nonneg_iff)
  with False have "nat (c div 32) \<noteq> nat (j div 32)" by simp
  moreover have "c \<noteq> j" using False by auto
  ultimately show ?thesis by (simp add: row_bit_def)
qed

subsection \<open>The loop over the columns of a row\<close>

lemma nb_masks_succ: "0 \<le> j \<Longrightarrow> nb_masks (j + 1) = j div 32 + 1"
  by (simp add: nb_masks_nonneg)

lemma fill_row_step:
  assumes j: "0 \<le> j" "j < wd"
    and len: "nb_masks wd \<le> int (length row)"
    and k: "k = (if j mod 32 = 0 then j div 32 - 1 else j div 32)"
    and msk: "msk = (if j mod 32 = 0 then 0 else 2 ^ nat (31 - j mod 32))"
    and rd: "0 \<le> pixel_index" "pixel_index < int (length pxs)"
  shows "fill_row pxs ck wd j k msk row pixel_index =
           fill_row pxs ck wd (j + 1) (j div 32)
             (if (j + 1) mod 32 = 0 then 0 else 2 ^ nat (31 - (j + 1) mod 32))
             (let row1 = (if j mod 32 = 0 then row[nat (j div 32) := 0] else row)
              in if pxs ! nat pixel_index \<noteq> ck
                 then row1[nat (j div 32) :=
                        row1 ! nat (j div 32) OR 2 ^ nat (31 - j mod 32)]
                 else row1)
             (pixel_index + 1)"
proof -
  have small: "nat (31 - j mod 32) < 32"
    by simp
  have zero: "msk = 0 \<longleftrightarrow> j mod 32 = 0"
    using msk single_nonzero [OF small] by simp
  have k1: "(if msk = 0 then k + 1 else k) = j div 32"
    using k zero by simp
  have mask1: "(if msk = 0 then 0x80000000 else msk) = 2 ^ nat (31 - j mod 32)"
    using msk zero by simp
  have "nb_masks (j + 1) \<le> nb_masks wd"
    using j by (intro nb_masks_mono) simp_all
  then have inside: "0 \<le> j div 32" "j div 32 < int (length row)"
    using j len by (simp_all add: nb_masks_succ pos_imp_zdiv_nonneg_iff)
  have next_mask: "drop_bit 1 (2 ^ nat (31 - j mod 32) :: Uint32) =
                     (if (j + 1) mod 32 = 0 then 0 else 2 ^ nat (31 - (j + 1) mod 32))"
  proof (cases "j mod 32 = 31")
    case True
    then show ?thesis by (simp add: succ_div_mod_32)
  next
    case False
    have "0 \<le> j mod 32" and "j mod 32 < 32" by simp_all
    with False have m: "nat (31 - j mod 32) \<noteq> 0"
      and m1: "nat (31 - j mod 32) - 1 = nat (31 - (j mod 32 + 1))" by simp_all
    have nxt: "(j + 1) mod 32 = j mod 32 + 1" and "(j + 1) mod 32 \<noteq> 0"
      using False \<open>0 \<le> j mod 32\<close> by (simp_all add: succ_div_mod_32)
    have "drop_bit 1 (2 ^ nat (31 - j mod 32) :: Uint32) = 2 ^ (nat (31 - j mod 32) - 1)"
      using drop_single [OF small] m by (simp only: if_False)
    also have "\<dots> = 2 ^ nat (31 - (j + 1) mod 32)"
      by (simp only: m1 nxt)
    finally show ?thesis
      using \<open>(j + 1) mod 32 \<noteq> 0\<close> by (simp only: if_False)
  qed
  show ?thesis
    apply (subst fill_row.simps)
    apply (simp only: j if_True Let_def k1 mask1 next_mask)
    apply (simp add: zero inside rd read_at_def write_at_def)
    done
qed

lemma fill_row_done:
  "fill_row pxs ck wd wd k msk row pixel_index = Inr (row, pixel_index)"
  by (subst fill_row.simps) simp

lemma fill_row_correct:
  assumes "0 \<le> j" and "j \<le> wd"
    and "\<forall>c. j \<le> c \<and> c < wd \<longrightarrow> 0 \<le> base + c \<and> base + c < int (length pxs)"
    and "nb_masks wd \<le> int (length row)"
    and "k = (if j mod 32 = 0 then j div 32 - 1 else j div 32)"
    and "msk = (if j mod 32 = 0 then 0 else 2 ^ nat (31 - j mod 32))"
    and "\<forall>c. 0 \<le> c \<and> c < j \<longrightarrow> (row_bit row c \<longleftrightarrow> pxs ! nat (base + c) \<noteq> ck)"
    and "\<forall>c. j \<le> c \<and> c < 32 * nb_masks j \<longrightarrow> \<not> row_bit row c"
  shows "\<exists>row'. fill_row pxs ck wd j k msk row (base + j) = Inr (row', base + wd) \<and>
           length row' = length row \<and>
           (\<forall>c. 0 \<le> c \<and> c < wd \<longrightarrow> (row_bit row' c \<longleftrightarrow> pxs ! nat (base + c) \<noteq> ck)) \<and>
           (\<forall>c. wd \<le> c \<and> c < 32 * nb_masks wd \<longrightarrow> \<not> row_bit row' c)"
  using assms
proof (induction "nat (wd - j)" arbitrary: j k msk row)
  case 0
  then have "j = wd" by simp
  with "0.prems" show ?case by (simp add: fill_row_done)
next
  case (Suc n)
  then have j: "0 \<le> j" "j < wd" by simp_all
  define row1 where "row1 = (if j mod 32 = 0 then row[nat (j div 32) := 0] else row)"
  define row2 where "row2 = (if pxs ! nat (base + j) \<noteq> ck
                             then row1[nat (j div 32) :=
                                    row1 ! nat (j div 32) OR 2 ^ nat (31 - j mod 32)]
                             else row1)"
  have rd: "0 \<le> base + j" "base + j < int (length pxs)"
    using Suc.prems(3) j by simp_all
  have step: "fill_row pxs ck wd j k msk row (base + j) =
                fill_row pxs ck wd (j + 1) (j div 32)
                  (if (j + 1) mod 32 = 0 then 0 else 2 ^ nat (31 - (j + 1) mod 32))
                  row2 (base + (j + 1))"
    using fill_row_step [OF j Suc.prems(4) Suc.prems(5) Suc.prems(6) rd, of ck]
    by (simp add: row1_def row2_def Let_def add.assoc)
  have "nb_masks (j + 1) \<le> nb_masks wd"
    using j by (intro nb_masks_mono) simp_all
  then have inside: "0 \<le> j div 32" "nat (j div 32) < length row"
    using j Suc.prems(4) by (simp_all add: nb_masks_succ pos_imp_zdiv_nonneg_iff)
  have len1: "length row1 = length row" and len2: "length row2 = length row"
    by (simp_all add: row1_def row2_def)
  have bit1: "row_bit row1 c \<longleftrightarrow> (j mod 32 = 0 \<longrightarrow> c div 32 \<noteq> j div 32) \<and> row_bit row c"
    if "0 \<le> c" for c
    using that inside by (simp add: row1_def row_bit_clear)
  have bit2: "row_bit row2 c \<longleftrightarrow> row_bit row1 c \<or> (c = j \<and> pxs ! nat (base + j) \<noteq> ck)"
    if "0 \<le> c" for c
    using that inside j len1 by (auto simp add: row2_def row_bit_set)
  have before: "c div 32 \<noteq> j div 32" if "j mod 32 = 0" "0 \<le> c" "c < j" for c
  proof
    assume "c div 32 = j div 32"
    moreover have "c mod 32 \<ge> 0" by simp
    ultimately have "j \<le> c"
      using that(1) div_mult_mod_eq [of c 32] div_mult_mod_eq [of j 32] by simp
    with that show False by simp
  qed
  have after: "\<not> row_bit row1 c" if "j \<le> c" "c < 32 * (j div 32 + 1)" for c
  proof (cases "j mod 32 = 0")
    case True
    have "c div 32 = j div 32"
    proof (rule int_div_pos_eq [where r = "c - j"])
      show "c = 32 * (j div 32) + (c - j)"
        using True div_mult_mod_eq [of j 32] by simp
      show "0 \<le> c - j" using that by simp
      show "c - j < 32"
        using that True div_mult_mod_eq [of j 32] by simp
    qed
    with True that j show ?thesis by (simp add: bit1)
  next
    case False
    then have "nb_masks j = j div 32 + 1"
      using j by (simp add: nb_masks_div_mod)
    with that Suc.prems(8) have "\<not> row_bit row c" by simp
    with that j show ?thesis by (simp add: bit1)
  qed
  have low: "\<forall>c. 0 \<le> c \<and> c < j + 1 \<longrightarrow> (row_bit row2 c \<longleftrightarrow> pxs ! nat (base + c) \<noteq> ck)"
  proof (intro allI impI)
    fix c assume c: "0 \<le> c \<and> c < j + 1"
    show "row_bit row2 c \<longleftrightarrow> pxs ! nat (base + c) \<noteq> ck"
    proof (cases "c = j")
      case True
      have "j < 32 * (j div 32 + 1)"
        using word_bounds [of j] by blast
      then have "\<not> row_bit row1 j" by (intro after) simp_all
      with True j show ?thesis by (simp add: bit2)
    next
      case False
      with c have "c < j" by simp
      then have "row_bit row c \<longleftrightarrow> pxs ! nat (base + c) \<noteq> ck"
        using c Suc.prems(7) by simp
      moreover have "j mod 32 = 0 \<longrightarrow> c div 32 \<noteq> j div 32"
        using before c \<open>c < j\<close> by simp
      ultimately show ?thesis
        using c False by (simp add: bit2 bit1)
    qed
  qed
  have high: "\<forall>c. j + 1 \<le> c \<and> c < 32 * nb_masks (j + 1) \<longrightarrow> \<not> row_bit row2 c"
  proof (intro allI impI)
    fix c assume c: "j + 1 \<le> c \<and> c < 32 * nb_masks (j + 1)"
    then have "\<not> row_bit row1 c"
      using j by (intro after) (simp_all add: nb_masks_succ)
    with c j show "\<not> row_bit row2 c" by (simp add: bit2)
  qed
  have "0 \<le> j mod 32"
    by simp
  then have k': "j div 32 = (if (j + 1) mod 32 = 0 then (j + 1) div 32 - 1 else (j + 1) div 32)"
    by (auto simp add: succ_div_mod_32)
  have reads: "\<forall>c. j + 1 \<le> c \<and> c < wd \<longrightarrow> 0 \<le> base + c \<and> base + c < int (length pxs)"
    using Suc.prems(3) by simp
  have n: "n = nat (wd - (j + 1))"
    using Suc.hyps(2) by simp
  have "\<exists>row'. fill_row pxs ck wd (j + 1) (j div 32)
                 (if (j + 1) mod 32 = 0 then 0 else 2 ^ nat (31 - (j + 1) mod 32))
                 row2 (base + (j + 1)) = Inr (row', base + wd) \<and>
           length row' = length row2 \<and>
           (\<forall>c. 0 \<le> c \<and> c < wd \<longrightarrow> (row_bit row' c \<longleftrightarrow> pxs ! nat (base + c) \<noteq> ck)) \<and>
           (\<forall>c. wd \<le> c \<and> c < 32 * nb_masks wd \<longrightarrow> \<not> row_bit row' c)"
    using j Suc.prems(4) len2
    by (intro Suc.hyps(1) [OF n] reads k' low high refl) simp_all
  then show ?case
    by (simp only: step len2)
qed

subsection \<open>The loop over the rows\<close>

lemma nb_masks_0: "nb_masks 0 = 0"
  by (simp add: nb_masks_def)

lemma fill_row_builds:
  assumes wd: "0 < wd"
    and reads: "\<forall>c. 0 \<le> c \<and> c < wd \<longrightarrow>
                  0 \<le> base + c \<and> base + c < int (length (pixels surface))"
    and len: "int (length row0) = nb_masks wd"
  shows "\<exists>row. fill_row (pixels surface) ck wd 0 (- 1) 0 row0 base = Inr (row, base + wd) \<and>
               row_built surface ck wd base row"
proof -
  have "\<exists>row'. fill_row (pixels surface) ck wd 0 (- 1) 0 row0 (base + 0) = Inr (row', base + wd) \<and>
           length row' = length row0 \<and>
           (\<forall>c. 0 \<le> c \<and> c < wd \<longrightarrow>
              (row_bit row' c \<longleftrightarrow> pixels surface ! nat (base + c) \<noteq> ck)) \<and>
           (\<forall>c. wd \<le> c \<and> c < 32 * nb_masks wd \<longrightarrow> \<not> row_bit row' c)"
    using wd reads len by (intro fill_row_correct) (auto simp add: nb_masks_0)
  then show ?thesis
    using len by (auto simp add: row_built_def)
qed

lemma fill_rows_done:
  "fill_rows junk surface ck wd ht nb ht rows pixel_index = Inr rows"
  by (subst fill_rows.simps) simp

lemma fill_rows_correct:
  assumes "0 \<le> i" and "i \<le> ht" and "0 < wd"
    and "\<forall>r c. i \<le> r \<and> r < ht \<and> 0 \<le> c \<and> c < wd \<longrightarrow>
           0 \<le> p0 + r * surface_w surface + c \<and>
           p0 + r * surface_w surface + c < int (length (pixels surface))"
    and "int (length rows) = i"
    and "\<forall>r. 0 \<le> r \<and> r < i \<longrightarrow>
           row_built surface ck wd (p0 + r * surface_w surface) (rows ! nat r)"
  shows "\<exists>rows'. fill_rows junk surface ck wd ht (nb_masks wd) i rows
                    (p0 + i * surface_w surface) = Inr rows' \<and>
           int (length rows') = ht \<and>
           (\<forall>r. 0 \<le> r \<and> r < ht \<longrightarrow>
              row_built surface ck wd (p0 + r * surface_w surface) (rows' ! nat r))"
  using assms
proof (induction "nat (ht - i)" arbitrary: i rows)
  case 0
  then have "i = ht" by simp
  with "0.prems" show ?case by (simp add: fill_rows_done)
next
  case (Suc n)
  then have i: "0 \<le> i" "i < ht" by simp_all
  define base where "base = p0 + i * surface_w surface"
  define row0 where "row0 = map (junk i) [0..<nat (nb_masks wd)]"
  have nb: "0 < nb_masks wd"
    using Suc.prems(3) by (rule nb_masks_pos)
  then have alloc: "new_array (junk i) (nb_masks wd) = Inr row0"
    and len0: "int (length row0) = nb_masks wd"
    by (simp_all add: new_array_def row0_def)
  have reads0: "\<forall>c. 0 \<le> c \<and> c < wd \<longrightarrow>
                   0 \<le> base + c \<and> base + c < int (length (pixels surface))"
    using Suc.prems(4) i by (simp add: base_def)
  obtain row where
    filled: "fill_row (pixels surface) ck wd 0 (- 1) 0 row0 base = Inr (row, base + wd)"
    and built: "row_built surface ck wd base row"
    using fill_row_builds [OF Suc.prems(3) reads0 len0, where ck = ck] by blast
  have next_base: "base + wd + (surface_w surface - wd) = p0 + (i + 1) * surface_w surface"
    by (simp add: base_def algebra_simps)
  have step: "fill_rows junk surface ck wd ht (nb_masks wd) i rows base =
                fill_rows junk surface ck wd ht (nb_masks wd) (i + 1) (rows @ [row])
                  (p0 + (i + 1) * surface_w surface)"
    by (subst fill_rows.simps) (simp add: i alloc filled next_base)
  have len: "int (length (rows @ [row])) = i + 1"
    using Suc.prems(5) by simp
  have all: "\<forall>r. 0 \<le> r \<and> r < i + 1 \<longrightarrow>
               row_built surface ck wd (p0 + r * surface_w surface) ((rows @ [row]) ! nat r)"
  proof (intro allI impI)
    fix r assume r: "0 \<le> r \<and> r < i + 1"
    show "row_built surface ck wd (p0 + r * surface_w surface) ((rows @ [row]) ! nat r)"
    proof (cases "r = i")
      case True
      with Suc.prems(5) i have "nat r = length rows" by simp
      with True built show ?thesis by (simp add: base_def)
    next
      case False
      with r have "r < i" by simp
      with r Suc.prems(5) have "nat r < length rows" by simp
      with r \<open>r < i\<close> Suc.prems(6) show ?thesis by (simp add: nth_append)
    qed
  qed
  have reads: "\<forall>r c. i + 1 \<le> r \<and> r < ht \<and> 0 \<le> c \<and> c < wd \<longrightarrow>
           0 \<le> p0 + r * surface_w surface + c \<and>
           p0 + r * surface_w surface + c < int (length (pixels surface))"
    using Suc.prems(4) by simp
  have n: "n = nat (ht - (i + 1))"
    using Suc.hyps(2) by simp
  have "\<exists>rows'. fill_rows junk surface ck wd ht (nb_masks wd) (i + 1) (rows @ [row])
                    (p0 + (i + 1) * surface_w surface) = Inr rows' \<and>
           int (length rows') = ht \<and>
           (\<forall>r. 0 \<le> r \<and> r < ht \<longrightarrow>
              row_built surface ck wd (p0 + r * surface_w surface) (rows' ! nat r))"
    using i Suc.prems(3) by (intro Suc.hyps(1) [OF n] reads len all) simp_all
  then show ?case
    by (simp only: step base_def [symmetric])
qed

lemma PixelBits_new_correct:
  assumes bpp: "BitsPerPixel surface = 8"
    and inside: "frame_in_buffer surface image_position"
  shows "\<exists>p. PixelBits_new junk surface image_position = Inr p \<and>
           width p = rect_w image_position \<and> height p = rect_h image_position \<and>
           nb_integers_per_row p = nb_masks (rect_w image_position) \<and>
           int (length (bits p)) = rect_h image_position \<and>
           (\<forall>r. 0 \<le> r \<and> r < rect_h image_position \<longrightarrow>
              row_built surface (ucast (colorkey surface)) (rect_w image_position)
                (source_index surface image_position r 0) (bits p ! nat r))"
proof -
  define p0 where "p0 = rect_y image_position * surface_w surface + rect_x image_position"
  define wd ht where "wd = rect_w image_position" and "ht = rect_h image_position"
  define ck :: Uint8 where "ck = ucast (colorkey surface)"
  have src: "source_index surface image_position r c = p0 + r * surface_w surface + c" for r c
    by (simp add: source_index_def p0_def algebra_simps)
  have pos: "0 < wd" "0 < ht"
    using inside by (simp_all add: frame_in_buffer_def wd_def ht_def)
  have reads: "\<forall>r c. 0 \<le> r \<and> r < ht \<and> 0 \<le> c \<and> c < wd \<longrightarrow>
           0 \<le> p0 + r * surface_w surface + c \<and>
           p0 + r * surface_w surface + c < int (length (pixels surface))"
    using inside by (simp add: frame_in_buffer_def wd_def ht_def src)
  have "\<exists>rows'. fill_rows junk surface ck wd ht (nb_masks wd) 0 []
                    (p0 + 0 * surface_w surface) = Inr rows' \<and>
           int (length rows') = ht \<and>
           (\<forall>r. 0 \<le> r \<and> r < ht \<longrightarrow>
              row_built surface ck wd (p0 + r * surface_w surface) (rows' ! nat r))"
    using pos reads by (intro fill_rows_correct) auto
  then obtain rows where
    run: "fill_rows junk surface ck wd ht (nb_masks wd) 0 [] p0 = Inr rows"
    and len: "int (length rows) = ht"
    and built: "\<forall>r. 0 \<le> r \<and> r < ht \<longrightarrow>
                  row_built surface ck wd (p0 + r * surface_w surface) (rows ! nat r)"
    by auto
  have "PixelBits_new junk surface image_position =
          Inr \<lparr>width = wd, height = ht, nb_integers_per_row = nb_masks wd, bits = rows\<rparr>"
    using bpp pos run
    by (simp add: PixelBits_new_def DIE_def Let_def p0_def [symmetric] wd_def [symmetric]
                  ht_def [symmetric] ck_def [symmetric])
  then show ?thesis
    using len built by (simp add: src wd_def ht_def ck_def)
qed

lemma fill_row_error:
  "fill_row pxs ck wd j k msk row pixel_index = Inl e \<Longrightarrow> e = OutOfBounds"
proof (induction "nat (wd - j)" arbitrary: j k msk row pixel_index)
  case 0
  then show ?case
    by (subst (asm) fill_row.simps) simp
next
  case (Suc n)
  from Suc.prems Suc.hyps(2) show ?case
    by (subst (asm) fill_row.simps)
       (auto simp add: Let_def read_at_def write_at_def
             split: if_splits sum.splits intro: Suc.hyps(1) [rotated])
qed

lemma fill_rows_error:
  "fill_rows junk surface ck wd ht nb i rows pixel_index = Inl e \<Longrightarrow>
     e = OutOfBounds \<or> e = BadAlloc"
proof (induction "nat (ht - i)" arbitrary: i rows pixel_index)
  case 0
  then show ?case
    by (subst (asm) fill_rows.simps) simp
next
  case (Suc n)
  then have i: "i < ht" and n: "n = nat (ht - (i + 1))"
    by simp_all
  show ?case
  proof (cases "new_array (junk i) nb")
    case (Inl a)
    then have "a = BadAlloc"
      by (simp add: new_array_def split: if_splits)
    with Inl Suc.prems i show ?thesis
      by (subst (asm) fill_rows.simps) simp
  next
    case row0: (Inr row0)
    show ?thesis
    proof (cases "fill_row (pixels surface) ck wd 0 (- 1) 0 row0 pixel_index")
      case (Inl a)
      then have "a = OutOfBounds"
        by (rule fill_row_error)
      with Inl row0 Suc.prems i show ?thesis
        by (subst (asm) fill_rows.simps) simp
    next
      case (Inr res)
      obtain row p1 where res: "res = (row, p1)"
        by (cases res)
      have "fill_rows junk surface ck wd ht nb (i + 1) (rows @ [row])
              (p1 + (surface_w surface - wd)) = Inl e"
        using Suc.prems i row0 Inr res by (subst (asm) fill_rows.simps) simp
      then show ?thesis
        by (rule Suc.hyps(1) [OF n])
    qed
  qed
qed

lemma PixelBits_new_error:
  "PixelBits_new junk surface image_position = Inl UnsupportedFormat \<Longrightarrow>
     BitsPerPixel surface \<noteq> 8"
proof
  assume run: "PixelBits_new junk surface image_position = Inl UnsupportedFormat"
    and bpp: "BitsPerPixel surface = 8"
  show False
  proof (cases "rect_h image_position < 0")
    case True
    with run bpp show False
      by (simp add: PixelBits_new_def DIE_def Let_def)
  next
    case False
    with run bpp
    have "fill_rows junk surface (ucast (colorkey surface)) (rect_w image_position)
            (rect_h image_position) (nb_masks (rect_w image_position)) 0 []
            (rect_y image_position * surface_w surface + rect_x image_position)
          = Inl UnsupportedFormat"
      by (simp add: PixelBits_new_def DIE_def Let_def split: sum.splits)
    then show False
      using fill_rows_error by blast
  qed
qed

lemma frame_in_surface_3x2:
  "frame_in_buffer surface_3x2 \<lparr>rect_x = 1, rect_y = 0, rect_w = 2, rect_h = 2\<rparr>"
  by (simp add: frame_in_buffer_def source_index_def surface_3x2_def)

text \<open>
  C4: for an 8-bit surface and a frame of positive width and height whose bytes lie in
  the buffer, the constructor builds a bitmap of the frame's size in which the bit
  of (\<open>row\<close>, \<open>col\<close>) is set exactly when the byte of that pixel differs from the
  colour key, for all \<open>0 \<le> row < height\<close> and \<open>0 \<le> col < width\<close>; the bits of the
  columns from \<open>width\<close> to the end of the last mask of each row are 0.
\<close>

theorem PixelBits_new_bits:
  assumes "BitsPerPixel surface = 8"
    and "frame_in_buffer surface image_position"
  shows "\<exists>p. PixelBits_new junk surface image_position = Inr p \<and>
           width p = rect_w image_position \<and> height p = rect_h image_position \<and>
           (\<forall>row col. 0 \<le> row \<and> row < height p \<and> 0 \<le> col \<and> col < width p \<longrightarrow>
              (pixel_bit p row col \<longleftrightarrow>
                 pixels surface ! nat (source_index surface image_position row col)
                   \<noteq> ucast (colorkey surface))) \<and>
           (\<forall>row col. 0 \<le> row \<and> row < height p \<and>
                       width p \<le> col \<and> col < 32 * nb_integers_per_row p \<longrightarrow>
              \<not> row_bit (bits p ! nat row) col)"
proof -
  obtain p where p: "PixelBits_new junk surface image_position = Inr p"
    "width p = rect_w image_position" "height p = rect_h image_position"
    "nb_integers_per_row p = nb_masks (rect_w image_position)"
    and built: "\<forall>r. 0 \<le> r \<and> r < rect_h image_position \<longrightarrow>
              row_built surface (ucast (colorkey surface)) (rect_w image_position)
                (source_index surface image_position r 0) (bits p ! nat r)"
    using PixelBits_new_correct [OF assms, of junk] by blast
  have src: "source_index surface image_position row 0 + col =
               source_index surface image_position row col" for row col
    by (simp add: source_index_def)
  have "pixel_bit p row col \<longleftrightarrow>
          pixels surface ! nat (source_index surface image_position row col)
            \<noteq> ucast (colorkey surface)"
    if "0 \<le> row \<and> row < height p \<and> 0 \<le> col \<and> col < width p" for row col
    using that built p by (simp add: pixel_bit_def row_built_def src)
  moreover have "\<not> row_bit (bits p ! nat row) col"
    if "0 \<le> row \<and> row < height p \<and> width p \<le> col \<and> col < 32 * nb_integers_per_row p"
    for row col
    using that built p by (simp add: row_built_def)
  ultimately show ?thesis
    using p by blast
qed

theorem PixelBits_new_bits_witness:
  "BitsPerPixel surface_3x2 = 8 \<and>
   frame_in_buffer surface_3x2 \<lparr>rect_x = 1, rect_y = 0, rect_w = 2, rect_h = 2\<rparr> \<and>
   (\<exists>p. PixelBits_new (\<lambda>i k. 0xFFFFFFFF) surface_3x2
           \<lparr>rect_x = 1, rect_y = 0, rect_w = 2, rect_h = 2\<rparr> = Inr p \<and>
        width p = 2 \<and> height p = 2 \<and>
        (pixel_bit p 1 0 \<longleftrightarrow>
           pixels surface_3x2 !
             nat (source_index surface_3x2 \<lparr>rect_x = 1, rect_y = 0, rect_w = 2, rect_h = 2\<rparr> 1 0)
           \<noteq> ucast (colorkey surface_3x2)) \<and>
        \<not> row_bit (bits p ! nat 1) 2)"
proof -
  have bpp: "BitsPerPixel surface_3x2 = 8"
    by (simp add: surface_3x2_def)
  obtain p where p: "PixelBits_new (\<lambda>i k. 0xFFFFFFFF) surface_3x2
           \<lparr>rect_x = 1, rect_y = 0, rect_w = 2, rect_h = 2\<rparr> = Inr p"
    "width p = 2" "height p = 2"
    and bits: "\<forall>row col. 0 \<le> row \<and> row < height p \<and> 0 \<le> col \<and> col < width p \<longrightarrow>
              (pixel_bit p row col \<longleftrightarrow>
                 pixels surface_3x2 ! nat (source_index surface_3x2
                    \<lparr>rect_x = 1, rect_y = 0, rect_w = 2, rect_h = 2\<rparr> row col)
                   \<noteq> ucast (colorkey surface_3x2))"
    and rest: "\<forall>row col. 0 \<le> row \<and> row < height p \<and>
                       width p \<le> col \<and> col < 32 * nb_integers_per_row p \<longrightarrow>
              \<not> row_bit (bits p ! nat row) col"
    using PixelBits_new_bits [OF bpp frame_in_surface_3x2, of "\<lambda>i k. 0xFFFFFFFF"]
    by auto
  have nb: "nb_integers_per_row p = 1"
    using PixelBits_new_fields [OF p(1)] by (simp add: nb_masks_def)
  have "pixel_bit p 1 0 \<longleftrightarrow>
           pixels surface_3x2 !
             nat (source_index surface_3x2 \<lparr>rect_x = 1, rect_y = 0, rect_w = 2, rect_h = 2\<rparr> 1 0)
           \<noteq> ucast (colorkey surface_3x2)"
    using bits [rule_format, of 1 0] p by simp
  moreover have "\<not> row_bit (bits p ! nat 1) 2"
    using rest [rule_format, of 1 2] p nb by simp
  ultimately show ?thesis
    using bpp frame_in_surface_3x2 p by blast
qed

text \<open>
  C9: the constructor stops with \<open>UnsupportedFormat\<close> exactly when the surface does
  not have 8 bits per pixel, and then builds nothing; for a frame whose bytes lie in
  the buffer it builds a bitmap exactly when the surface has 8 bits per pixel.
\<close>

theorem PixelBits_new_format:
  "(BitsPerPixel surface \<noteq> 8 \<longrightarrow>
      PixelBits_new junk surface image_position = Inl UnsupportedFormat) \<and>
   (PixelBits_new junk surface image_position = Inl UnsupportedFormat \<longrightarrow>
      BitsPerPixel surface \<noteq> 8) \<and>
   (frame_in_buffer surface image_position \<longrightarrow>
      ((\<exists>p. PixelBits_new junk surface image_position = Inr p) \<longleftrightarrow>
         BitsPerPixel surface = 8))"
proof (intro conjI impI)
  assume "BitsPerPixel surface \<noteq> 8"
  then show "PixelBits_new junk surface image_position = Inl UnsupportedFormat"
    by (simp add: PixelBits_new_def DIE_def)
next
  assume "PixelBits_new junk surface image_position = Inl UnsupportedFormat"
  then show "BitsPerPixel surface \<noteq> 8"
    by (rule PixelBits_new_error)
next
  assume inside: "frame_in_buffer surface image_position"
  show "(\<exists>p. PixelBits_new junk surface image_position = Inr p) \<longleftrightarrow> BitsPerPixel surface = 8"
  proof
    assume "\<exists>p. PixelBits_new junk surface image_position = Inr p"
    then show "BitsPerPixel surface = 8"
      by (auto simp add: PixelBits_new_def DIE_def split: if_splits)
  next
    assume "BitsPerPixel surface = 8"
    then show "\<exists>p. PixelBits_new junk surface image_position = Inr p"
      using PixelBits_new_correct [OF _ inside, of junk] by blast
  qed
qed

theorem PixelBits_new_format_witness:
  "BitsPerPixel surface_32bpp \<noteq> 8 \<and>
   PixelBits_new (\<lambda>i k. 0) surface_32bpp \<lparr>rect_x = 1, rect_y = 0, rect_w = 2, rect_h = 2\<rparr>
     = Inl UnsupportedFormat \<and>
   frame_in_buffer surface_3x2 \<lparr>rect_x = 1, rect_y = 0, rect_w = 2, rect_h = 2\<rparr> \<and>
   BitsPerPixel surface_3x2 = 8 \<and>
   (\<exists>p. PixelBits_new (\<lambda>i k. 0) surface_3x2 \<lparr>rect_x = 1, rect_y = 0, rect_w = 2, rect_h = 2\<rparr>
           = Inr p)"
proof -
  have bad: "BitsPerPixel surface_32bpp \<noteq> 8"
    by (simp add: surface_32bpp_def)
  have good: "BitsPerPixel surface_3x2 = 8"
    by (simp add: surface_3x2_def)
  show ?thesis
    using bad good frame_in_surface_3x2
      PixelBits_new_format [of surface_32bpp "\<lambda>i k. 0"
                               "\<lparr>rect_x = 1, rect_y = 0, rect_w = 2, rect_h = 2\<rparr>"]
      PixelBits_new_format [of surface_3x2 "\<lambda>i k. 0"
                               "\<lparr>rect_x = 1, rect_y = 0, rect_w = 2, rect_h = 2\<rparr>"]
    by blast
qed

section \<open>Array accesses of the collision test\<close>

lemma assign_rows_this_right:
  "rect_x location1 > rect_x location2 \<Longrightarrow>
   assign_rows this other location1 location2 =
     \<lparr>rows_a = bits this,
      rows_a_start = max (rect_y location1) (rect_y location2) - rect_y location1,
      rows_b = bits other,
      rows_b_start = max (rect_y location1) (rect_y location2) - rect_y location2,
      nb_masks_per_row_a =
        nb_masks (min (rect_x location1 + width this) (rect_x location2 + width other)
                    - rect_x location1),
      has_row_b_additional_mask =
        (nb_masks (min (rect_x location1 + width this) (rect_x location2 + width other)
                     - rect_x location1)
           + (rect_x location1 - rect_x location2) sdiv 32 + 1 < nb_integers_per_row other),
      nb_unused_masks_row_b = (rect_x location1 - rect_x location2) sdiv 32,
      nb_unused_bits_row_b = (rect_x location1 - rect_x location2) smod 32,
      nb_used_bits_row_b = 32 - (rect_x location1 - rect_x location2) smod 32,
      intersection_h =
        min (rect_y location1 + height this) (rect_y location2 + height other)
          - max (rect_y location1) (rect_y location2)\<rparr>"
  by (simp add: assign_rows_def bounding_box_def MAX_macro_def MIN_macro_def Let_def max_def)

lemma assign_rows_other_right:
  "\<not> rect_x location1 > rect_x location2 \<Longrightarrow>
   assign_rows this other location1 location2 =
     \<lparr>rows_a = bits other,
      rows_a_start = max (rect_y location1) (rect_y location2) - rect_y location2,
      rows_b = bits this,
      rows_b_start = max (rect_y location1) (rect_y location2) - rect_y location1,
      nb_masks_per_row_a =
        nb_masks (min (rect_x location1 + width this) (rect_x location2 + width other)
                    - rect_x location2),
      has_row_b_additional_mask =
        (nb_masks (min (rect_x location1 + width this) (rect_x location2 + width other)
                     - rect_x location2)
           + (rect_x location2 - rect_x location1) sdiv 32 + 1 < nb_integers_per_row this),
      nb_unused_masks_row_b = (rect_x location2 - rect_x location1) sdiv 32,
      nb_unused_bits_row_b = (rect_x location2 - rect_x location1) smod 32,
      nb_used_bits_row_b = 32 - (rect_x location2 - rect_x location1) smod 32,
      intersection_h =
        min (rect_y location1 + height this) (rect_y location2 + height other)
          - max (rect_y location1) (rect_y location2)\<rparr>"
  by (simp add: assign_rows_def bounding_box_def MAX_macro_def MIN_macro_def Let_def max_def)


lemma compare_masks_in_bounds:
  assumes "0 \<le> j" and "j < nb_masks_per_row_a g"
    and "nb_masks_per_row_a g \<le> int (length bits_a)"
    and "0 \<le> nb_unused_masks_row_b g"
    and "nb_masks_per_row_a g + nb_unused_masks_row_b g \<le> int (length bits_b)"
    and "has_row_b_additional_mask g \<longrightarrow>
           nb_masks_per_row_a g + nb_unused_masks_row_b g + 1 < int (length bits_b)"
  shows "compare_masks g bits_a bits_b j \<noteq> Inl OutOfBounds"
proof -
  have a: "read_at bits_a j = Inr (bits_a ! nat j)"
    using assms by (simp add: read_at_def)
  have b: "read_at bits_b (j + nb_unused_masks_row_b g)
             = Inr (bits_b ! nat (j + nb_unused_masks_row_b g))"
    using assms by (simp add: read_at_def)
  have c: "has_row_b_additional_mask g \<Longrightarrow>
             read_at bits_b (j + nb_unused_masks_row_b g + 1)
               = Inr (bits_b ! nat (j + nb_unused_masks_row_b g + 1))"
    using assms by (simp add: read_at_def)
  show ?thesis
    by (cases "has_row_b_additional_mask g")
       (simp_all add: compare_masks_def a b c shift_right_def split: sum.splits)
qed

lemma check_masks_in_bounds:
  assumes "0 \<le> j"
    and "nb_masks_per_row_a g \<le> int (length bits_a)"
    and "0 \<le> nb_unused_masks_row_b g"
    and "nb_masks_per_row_a g + nb_unused_masks_row_b g \<le> int (length bits_b)"
    and "has_row_b_additional_mask g \<longrightarrow>
           nb_masks_per_row_a g + nb_unused_masks_row_b g + 1 < int (length bits_b)"
  shows "check_masks g bits_a bits_b j \<noteq> Inl OutOfBounds"
  using assms
proof (induction g bits_a bits_b j rule: check_masks.induct)
  case (1 g bits_a bits_b j)
  show ?case
  proof (cases "j < nb_masks_per_row_a g")
    case False
    then show ?thesis by (simp add: check_masks.simps [of g bits_a bits_b j])
  next
    case True
    have here: "compare_masks g bits_a bits_b j \<noteq> Inl OutOfBounds"
      using True "1.prems" by (intro compare_masks_in_bounds) simp_all
    show ?thesis
    proof (cases "compare_masks g bits_a bits_b j")
      case (Inl e)
      with here True show ?thesis
        by (simp add: check_masks.simps [of g bits_a bits_b j])
    next
      case (Inr collision)
      show ?thesis
      proof (cases collision)
        case True
        with Inr \<open>j < nb_masks_per_row_a g\<close> show ?thesis
          by (simp add: check_masks.simps [of g bits_a bits_b j])
      next
        case False
        have "check_masks g bits_a bits_b (j + 1) \<noteq> Inl OutOfBounds"
          using "1.IH" [OF \<open>j < nb_masks_per_row_a g\<close> Inr False] "1.prems" by simp
        with Inr False \<open>j < nb_masks_per_row_a g\<close> show ?thesis
          by (simp add: check_masks.simps [of g bits_a bits_b j])
      qed
    qed
  qed
qed

lemma check_rows_in_bounds:
  assumes "0 \<le> i"
    and "0 \<le> rows_a_start g"
    and "rows_a_start g + intersection_h g \<le> int (length (rows_a g))"
    and "0 \<le> rows_b_start g"
    and "rows_b_start g + intersection_h g \<le> int (length (rows_b g))"
    and "list_all (\<lambda>row. nb_masks_per_row_a g \<le> int (length row)) (rows_a g)"
    and "0 \<le> nb_unused_masks_row_b g"
    and "list_all (\<lambda>row. nb_masks_per_row_a g + nb_unused_masks_row_b g \<le> int (length row) \<and>
                     (has_row_b_additional_mask g \<longrightarrow>
                        nb_masks_per_row_a g + nb_unused_masks_row_b g + 1 < int (length row)))
           (rows_b g)"
  shows "check_rows g i \<noteq> Inl OutOfBounds"
  using assms
proof (induction g i rule: check_rows.induct)
  case (1 g i)
  show ?case
  proof (cases "i < intersection_h g")
    case False
    then show ?thesis by (simp add: check_rows.simps [of g i])
  next
    case True
    define ra where "ra = rows_a g ! nat (rows_a_start g + i)"
    define rb where "rb = rows_b g ! nat (rows_b_start g + i)"
    have ia: "nat (rows_a_start g + i) < length (rows_a g)"
      and ib: "nat (rows_b_start g + i) < length (rows_b g)"
      using True "1.prems" by simp_all
    have read_a: "read_at (rows_a g) (rows_a_start g + i) = Inr ra"
      and read_b: "read_at (rows_b g) (rows_b_start g + i) = Inr rb"
      using True "1.prems" by (simp_all add: read_at_def ra_def rb_def)
    have len_a: "nb_masks_per_row_a g \<le> int (length ra)"
      using "1.prems"(6) ia by (simp add: list_all_length ra_def)
    have len_b: "nb_masks_per_row_a g + nb_unused_masks_row_b g \<le> int (length rb)"
      "has_row_b_additional_mask g \<longrightarrow>
         nb_masks_per_row_a g + nb_unused_masks_row_b g + 1 < int (length rb)"
      using "1.prems"(8) ib by (simp_all add: list_all_length rb_def)
    have masks: "check_masks g ra rb 0 \<noteq> Inl OutOfBounds"
      using len_a len_b "1.prems"(7) by (intro check_masks_in_bounds) simp_all
    show ?thesis
    proof (cases "check_masks g ra rb 0")
      case (Inl e)
      with masks True read_a read_b show ?thesis
        by (simp add: check_rows.simps [of g i])
    next
      case (Inr collision)
      show ?thesis
      proof (cases collision)
        case True
        with Inr \<open>i < intersection_h g\<close> read_a read_b show ?thesis
          by (simp add: check_rows.simps [of g i])
      next
        case False
        have "check_rows g (i + 1) \<noteq> Inl OutOfBounds"
          using "1.IH" [OF \<open>i < intersection_h g\<close> read_a read_b Inr False] "1.prems"
          by simp
        with Inr False \<open>i < intersection_h g\<close> read_a read_b show ?thesis
          by (simp add: check_rows.simps [of g i])
      qed
    qed
  qed
qed

lemma assign_rows_bounds:
  assumes wf1: "well_formed this" and wf2: "well_formed other"
    and overlap: "check_rectangle_collision (bounding_box this location1)
                                            (bounding_box other location2)"
    and g: "g = assign_rows this other location1 location2"
    and A: "A = bitmap_a this other location1 location2"
    and B: "B = bitmap_b this other location1 location2"
  shows "rows_a g = bits A \<and> rows_b g = bits B \<and>
         0 < intersection_h g \<and>
         0 \<le> rows_a_start g \<and> rows_a_start g + intersection_h g \<le> height A \<and>
         0 \<le> rows_b_start g \<and> rows_b_start g + intersection_h g \<le> height B \<and>
         0 < nb_masks_per_row_a g \<and> nb_masks_per_row_a g \<le> nb_integers_per_row A \<and>
         0 \<le> nb_unused_masks_row_b g \<and>
         nb_masks_per_row_a g + nb_unused_masks_row_b g \<le> nb_integers_per_row B \<and>
         (has_row_b_additional_mask g \<longrightarrow>
            nb_masks_per_row_a g + nb_unused_masks_row_b g + 1 < nb_integers_per_row B) \<and>
         0 \<le> nb_unused_bits_row_b g \<and> nb_unused_bits_row_b g < 32 \<and>
         nb_used_bits_row_b g = 32 - nb_unused_bits_row_b g"
proof -
  define x1 y1 w1 h1 where "x1 = rect_x location1" and "y1 = rect_y location1"
    and "w1 = width this" and "h1 = height this"
  define x2 y2 w2 h2 where "x2 = rect_x location2" and "y2 = rect_y location2"
    and "w2 = width other" and "h2 = height other"
  note names = x1_def y1_def w1_def h1_def x2_def y2_def w2_def h2_def
  have ov: "x2 < x1 + w1" "x1 < x2 + w2" "y2 < y1 + h1" "y1 < y2 + h2"
    using overlap by (simp_all add: check_rectangle_collision_iff bounding_box_def names)
  have nb1: "nb_integers_per_row this = nb_masks w1" and nb2: "nb_integers_per_row other = nb_masks w2"
    using wf1 wf2 by (simp_all add: well_formed_def names)
  have pos: "0 < w1" "0 < w2"
    using wf1 wf2 by (simp_all add: well_formed_def names)
  have hpos: "0 < h1" "0 < h2"
    using wf1 wf2 by (simp_all add: well_formed_def names)
  define ih where "ih = min (y1 + h1) (y2 + h2) - max y1 y2"
  have rows: "0 < ih" "0 \<le> max y1 y2 - y1" "max y1 y2 - y1 + ih \<le> h1"
    "0 \<le> max y1 y2 - y2" "max y1 y2 - y2 + ih \<le> h2"
    using ov hpos unfolding ih_def by linarith+
  show ?thesis
  proof (cases "x1 > x2")
    case True
    define iw where "iw = min (x1 + w1) (x2 + w2) - x1"
    define ob where "ob = x1 - x2"
    have iw: "0 < iw" "iw \<le> w1" "ob + iw \<le> w2" and ob: "0 \<le> ob"
      using ov True pos by (simp_all add: iw_def ob_def)
    have geq: "g = \<lparr>rows_a = bits this, rows_a_start = max y1 y2 - y1,
                    rows_b = bits other, rows_b_start = max y1 y2 - y2,
                    nb_masks_per_row_a = nb_masks iw,
                    has_row_b_additional_mask =
                      (nb_masks iw + ob sdiv 32 + 1 < nb_integers_per_row other),
                    nb_unused_masks_row_b = ob sdiv 32,
                    nb_unused_bits_row_b = ob smod 32,
                    nb_used_bits_row_b = 32 - ob smod 32,
                    intersection_h = ih\<rparr>"
      using True unfolding g names iw_def ob_def ih_def by (intro assign_rows_this_right) simp
    have AB: "A = this" "B = other"
      using True by (simp_all add: A B bitmap_a_def bitmap_b_def names)
    have n1: "nb_masks iw \<le> nb_masks w1"
      using iw by (intro nb_masks_mono) simp_all
    have "nb_masks iw + ob div 32 \<le> nb_masks (ob + iw)"
      using iw ob by (intro nb_masks_offset) simp_all
    also have "\<dots> \<le> nb_masks w2"
      using iw ob by (intro nb_masks_mono) simp_all
    finally have n2: "nb_masks iw + ob div 32 \<le> nb_masks w2" .
    have n0: "0 < nb_masks iw"
      using iw by (simp add: nb_masks_pos)
    have u: "0 \<le> ob div 32"
      using ob by (simp add: pos_imp_zdiv_nonneg_iff)
    show ?thesis
      using rows n0 n1 n2 u ob
      by (simp add: geq AB nb1 nb2 sdiv_32_nonneg smod_32_nonneg names [symmetric])
  next
    case False
    define iw where "iw = min (x1 + w1) (x2 + w2) - x2"
    define ob where "ob = x2 - x1"
    have iw: "0 < iw" "iw \<le> w2" "ob + iw \<le> w1" and ob: "0 \<le> ob"
      using ov False pos by (simp_all add: iw_def ob_def)
    have geq: "g = \<lparr>rows_a = bits other, rows_a_start = max y1 y2 - y2,
                    rows_b = bits this, rows_b_start = max y1 y2 - y1,
                    nb_masks_per_row_a = nb_masks iw,
                    has_row_b_additional_mask =
                      (nb_masks iw + ob sdiv 32 + 1 < nb_integers_per_row this),
                    nb_unused_masks_row_b = ob sdiv 32,
                    nb_unused_bits_row_b = ob smod 32,
                    nb_used_bits_row_b = 32 - ob smod 32,
                    intersection_h = ih\<rparr>"
      using False unfolding g names iw_def ob_def ih_def by (intro assign_rows_other_right) simp
    have AB: "A = other" "B = this"
      using False by (simp_all add: A B bitmap_a_def bitmap_b_def names)
    have n1: "nb_masks iw \<le> nb_masks w2"
      using iw by (intro nb_masks_mono) simp_all
    have "nb_masks iw + ob div 32 \<le> nb_masks (ob + iw)"
      using iw ob by (intro nb_masks_offset) simp_all
    also have "\<dots> \<le> nb_masks w1"
      using iw ob by (intro nb_masks_mono) simp_all
    finally have n2: "nb_masks iw + ob div 32 \<le> nb_masks w1" .
    have n0: "0 < nb_masks iw"
      using iw by (simp add: nb_masks_pos)
    have u: "0 \<le> ob div 32"
      using ob by (simp add: pos_imp_zdiv_nonneg_iff)
    show ?thesis
      using rows n0 n1 n2 u ob
      by (simp add: geq AB nb1 nb2 sdiv_32_nonneg smod_32_nonneg names [symmetric])
  qed
qed

text \<open>
  C10: when the two bounding boxes overlap, every array access of \<open>check_collision\<close>
  is in bounds. For each row \<open>i\<close> of the intersection and each \<open>j\<close> below
  \<open>nb_masks_per_row_a\<close>, the row indices lie in \<open>[0, height)\<close> of their bitmap, \<open>j\<close>
  lies below the \<open>nb_integers_per_row\<close> of the bitmap of row a, \<open>j +
  nb_unused_masks_row_b\<close> lies in \<open>[0, nb_integers_per_row)\<close> of the bitmap of row b,
  and so does \<open>j + nb_unused_masks_row_b + 1\<close> when \<open>has_row_b_additional_mask\<close>
  holds; the run never leaves an array.
\<close>

theorem check_collision_in_bounds:
  assumes "well_formed this" and "well_formed other"
    and "check_rectangle_collision (bounding_box this location1)
                                   (bounding_box other location2)"
    and "g = assign_rows this other location1 location2"
    and "A = bitmap_a this other location1 location2"
    and "B = bitmap_b this other location1 location2"
  shows "rows_a g = bits A \<and> rows_b g = bits B \<and>
         (\<forall>i j. 0 \<le> i \<and> i < intersection_h g \<and> 0 \<le> j \<and> j < nb_masks_per_row_a g \<longrightarrow>
            0 \<le> rows_a_start g + i \<and> rows_a_start g + i < height A \<and>
            0 \<le> rows_b_start g + i \<and> rows_b_start g + i < height B \<and>
            j < nb_integers_per_row A \<and>
            0 \<le> j + nb_unused_masks_row_b g \<and>
            j + nb_unused_masks_row_b g < nb_integers_per_row B \<and>
            (has_row_b_additional_mask g \<longrightarrow>
               0 \<le> j + nb_unused_masks_row_b g + 1 \<and>
               j + nb_unused_masks_row_b g + 1 < nb_integers_per_row B)) \<and>
         check_collision this other location1 location2 \<noteq> Inl OutOfBounds"
proof -
  note b = assign_rows_bounds [OF assms]
  have wfA: "well_formed A" and wfB: "well_formed B"
    using assms by (simp_all add: bitmap_a_def bitmap_b_def)
  have lenA: "int (length (rows_a g)) = height A"
    and lenB: "int (length (rows_b g)) = height B"
    using b wfA wfB by (simp_all add: well_formed_def)
  have rowsA: "list_all (\<lambda>row. nb_masks_per_row_a g \<le> int (length row)) (rows_a g)"
    using b wfA by (simp add: well_formed_def list_all_iff)
  have rowsB: "list_all (\<lambda>row.
                  nb_masks_per_row_a g + nb_unused_masks_row_b g \<le> int (length row) \<and>
                  (has_row_b_additional_mask g \<longrightarrow>
                     nb_masks_per_row_a g + nb_unused_masks_row_b g + 1 < int (length row)))
               (rows_b g)"
    using b wfB by (simp add: well_formed_def list_all_iff)
  have "check_rows g 0 \<noteq> Inl OutOfBounds"
    using b lenA lenB rowsA rowsB by (intro check_rows_in_bounds) simp_all
  then have run: "check_collision this other location1 location2 \<noteq> Inl OutOfBounds"
    using assms by (simp add: check_collision_def)
  have idx: "\<forall>i j. 0 \<le> i \<and> i < intersection_h g \<and> 0 \<le> j \<and> j < nb_masks_per_row_a g \<longrightarrow>
            0 \<le> rows_a_start g + i \<and> rows_a_start g + i < height A \<and>
            0 \<le> rows_b_start g + i \<and> rows_b_start g + i < height B \<and>
            j < nb_integers_per_row A \<and>
            0 \<le> j + nb_unused_masks_row_b g \<and>
            j + nb_unused_masks_row_b g < nb_integers_per_row B \<and>
            (has_row_b_additional_mask g \<longrightarrow>
               0 \<le> j + nb_unused_masks_row_b g + 1 \<and>
               j + nb_unused_masks_row_b g + 1 < nb_integers_per_row B)"
    using b by auto
  show ?thesis
    using b run idx by blast
qed

theorem check_collision_in_bounds_witness:
  "well_formed frame_2x1 \<and> well_formed frame_128x1 \<and>
   check_rectangle_collision (bounding_box frame_2x1 (location 31 0))
                             (bounding_box frame_128x1 (location 0 0)) \<and>
   has_row_b_additional_mask (assign_rows frame_2x1 frame_128x1 (location 31 0) (location 0 0)) \<and>
   rows_b (assign_rows frame_2x1 frame_128x1 (location 31 0) (location 0 0)) = bits frame_128x1 \<and>
   0 + nb_unused_masks_row_b (assign_rows frame_2x1 frame_128x1 (location 31 0) (location 0 0)) + 1
     < nb_integers_per_row frame_128x1 \<and>
   check_collision frame_2x1 frame_128x1 (location 31 0) (location 0 0) \<noteq> Inl OutOfBounds"
proof -
  have wf1: "well_formed frame_2x1" and wf2: "well_formed frame_128x1"
    by code_simp+
  have overlap: "check_rectangle_collision (bounding_box frame_2x1 (location 31 0))
                                           (bounding_box frame_128x1 (location 0 0))"
    by code_simp
  have flag: "has_row_b_additional_mask
                (assign_rows frame_2x1 frame_128x1 (location 31 0) (location 0 0))"
    by code_simp
  have range: "(0::int) \<le> 0 \<and>
      0 < intersection_h (assign_rows frame_2x1 frame_128x1 (location 31 0) (location 0 0)) \<and>
      (0::int) \<le> 0 \<and>
      0 < nb_masks_per_row_a (assign_rows frame_2x1 frame_128x1 (location 31 0) (location 0 0))"
    by code_simp
  have B: "bitmap_b frame_2x1 frame_128x1 (location 31 0) (location 0 0) = frame_128x1"
    by code_simp
  note all = check_collision_in_bounds [OF wf1 wf2 overlap refl refl refl]
  from all have "rows_b (assign_rows frame_2x1 frame_128x1 (location 31 0) (location 0 0))
                   = bits frame_128x1"
    by (simp add: B)
  moreover from all range flag
  have "0 + nb_unused_masks_row_b
              (assign_rows frame_2x1 frame_128x1 (location 31 0) (location 0 0)) + 1
          < nb_integers_per_row frame_128x1"
    unfolding B by blast
  moreover from all
  have "check_collision frame_2x1 frame_128x1 (location 31 0) (location 0 0) \<noteq> Inl OutOfBounds"
    by blast
  ultimately show ?thesis
    using wf1 wf2 overlap flag by blast
qed

section \<open>Swapping the two bitmaps\<close>

text \<open>
  When the two positions differ in \<open>x\<close>, either call makes the same bitmap row a and
  computes the same values. When they agree in \<open>x\<close>, the roles swap with the
  arguments; the two calls agree if neither finds an additional mask in its row b.
\<close>

lemma check_rectangle_collision_commute:
  "check_rectangle_collision r1 r2 = check_rectangle_collision r2 r1"
  by (auto simp add: check_rectangle_collision_iff)

lemma assign_rows_swap:
  assumes "rect_x location1 \<noteq> rect_x location2"
  shows "assign_rows this other location1 location2 = assign_rows other this location2 location1"
proof (cases "rect_x location1 > rect_x location2")
  case True
  then have "\<not> rect_x location2 > rect_x location1" by simp
  then show ?thesis
    using True
    by (simp add: assign_rows_this_right assign_rows_other_right min.commute max.commute)
next
  case False
  with assms have "rect_x location2 > rect_x location1" by simp
  then show ?thesis
    using False
    by (simp add: assign_rows_this_right assign_rows_other_right min.commute max.commute)
qed

lemma check_collision_swap:
  "rect_x location1 \<noteq> rect_x location2 \<Longrightarrow>
     check_collision this other location1 location2 =
     check_collision other this location2 location1"
  by (simp add: check_collision_def assign_rows_swap
                check_rectangle_collision_commute [of "bounding_box this location1"])

lemma compare_masks_aligned_swap:
  assumes "nb_unused_masks_row_b g = 0" and "nb_unused_bits_row_b g = 0"
    and "\<not> has_row_b_additional_mask g"
    and "nb_unused_masks_row_b g' = 0" and "nb_unused_bits_row_b g' = 0"
    and "\<not> has_row_b_additional_mask g'"
  shows "compare_masks g bits_a bits_b j = compare_masks g' bits_b bits_a j"
  using assms
  by (cases "read_at bits_a j"; cases "read_at bits_b j")
     (auto simp add: compare_masks_def shift_right_def read_at_def and.commute
           split: if_splits)

lemma check_masks_aligned_swap:
  assumes "nb_unused_masks_row_b g = 0" and "nb_unused_bits_row_b g = 0"
    and "\<not> has_row_b_additional_mask g"
    and "nb_unused_masks_row_b g' = 0" and "nb_unused_bits_row_b g' = 0"
    and "\<not> has_row_b_additional_mask g'"
    and "nb_masks_per_row_a g' = nb_masks_per_row_a g"
  shows "check_masks g bits_a bits_b j = check_masks g' bits_b bits_a j"
proof (induction "nat (nb_masks_per_row_a g - j)" arbitrary: j)
  case 0
  then show ?case
    using assms(7)
    by (simp add: check_masks.simps [of g bits_a bits_b j] check_masks.simps [of g' bits_b bits_a j])
next
  case (Suc n)
  then have j: "j < nb_masks_per_row_a g" and n: "n = nat (nb_masks_per_row_a g - (j + 1))"
    by simp_all
  have here: "compare_masks g bits_a bits_b j = compare_masks g' bits_b bits_a j"
    using assms(1-6) by (rule compare_masks_aligned_swap)
  have later: "check_masks g bits_a bits_b (j + 1) = check_masks g' bits_b bits_a (j + 1)"
    using n by (rule Suc.hyps(1))
  show ?case
    using j assms(7) here later
    by (simp add: check_masks.simps [of g bits_a bits_b j] check_masks.simps [of g' bits_b bits_a j]
             split: sum.splits)
qed

lemma check_rows_aligned_swap:
  assumes "nb_unused_masks_row_b g = 0" and "nb_unused_bits_row_b g = 0"
    and "\<not> has_row_b_additional_mask g"
    and "nb_unused_masks_row_b g' = 0" and "nb_unused_bits_row_b g' = 0"
    and "\<not> has_row_b_additional_mask g'"
    and "nb_masks_per_row_a g' = nb_masks_per_row_a g"
    and "rows_a g' = rows_b g" and "rows_a_start g' = rows_b_start g"
    and "rows_b g' = rows_a g" and "rows_b_start g' = rows_a_start g"
    and "intersection_h g' = intersection_h g"
  shows "check_rows g i = check_rows g' i"
proof (induction "nat (intersection_h g - i)" arbitrary: i)
  case 0
  then show ?case
    using assms(12) by (simp add: check_rows.simps [of g i] check_rows.simps [of g' i])
next
  case (Suc n)
  then have i: "i < intersection_h g" and n: "n = nat (intersection_h g - (i + 1))"
    by simp_all
  have later: "check_rows g (i + 1) = check_rows g' (i + 1)"
    using n by (rule Suc.hyps(1))
  have masks: "check_masks g bits_a bits_b 0 = check_masks g' bits_b bits_a 0"
    for bits_a bits_b
    using assms(1-7) by (rule check_masks_aligned_swap)
  show ?case
    using i later
    by (cases "read_at (rows_a g) (rows_a_start g + i)";
        cases "read_at (rows_b g) (rows_b_start g + i)")
       (auto simp add: check_rows.simps [of g i] check_rows.simps [of g' i] assms(8-12) masks
                       read_at_def split: if_splits sum.splits)
qed

lemma check_collision_swap_aligned:
  assumes "rect_x location1 = rect_x location2"
    and "\<not> has_row_b_additional_mask (assign_rows this other location1 location2)"
    and "\<not> has_row_b_additional_mask (assign_rows other this location2 location1)"
  shows "check_collision this other location1 location2 =
         check_collision other this location2 location1"
proof -
  have no: "\<not> rect_x location1 > rect_x location2" "\<not> rect_x location2 > rect_x location1"
    using assms(1) by simp_all
  have "check_rows (assign_rows this other location1 location2) 0 =
        check_rows (assign_rows other this location2 location1) 0"
    using assms
    by (intro check_rows_aligned_swap)
       (simp_all add: assign_rows_other_right [OF no(1)] assign_rows_other_right [OF no(2)]
                      min.commute max.commute)
  then show ?thesis
    by (simp add: check_collision_def
                  check_rectangle_collision_commute [of "bounding_box this location1"])
qed

section \<open>What the collision test computes\<close>

text \<open>
  As long as no mask is shifted by 32 bits (\<open>has_row_b_additional_mask\<close> only with
  \<open>nb_unused_bits_row_b \<noteq> 0\<close>), the comparison of one mask of row a finds exactly the
  columns of that mask whose bit and the bit of row b under it are both set, the
  latter in a mask that is read.
\<close>

lemma compare_masks_value:
  assumes "0 \<le> j" and "j < nb_masks_per_row_a g"
    and "nb_masks_per_row_a g \<le> int (length bits_a)"
    and "0 \<le> nb_unused_masks_row_b g"
    and "nb_masks_per_row_a g + nb_unused_masks_row_b g \<le> int (length bits_b)"
    and "has_row_b_additional_mask g \<longrightarrow>
           nb_masks_per_row_a g + nb_unused_masks_row_b g + 1 < int (length bits_b)"
    and "0 \<le> nb_unused_bits_row_b g" and "nb_unused_bits_row_b g < 32"
    and "nb_used_bits_row_b g = 32 - nb_unused_bits_row_b g"
    and "has_row_b_additional_mask g \<longrightarrow> nb_unused_bits_row_b g \<noteq> 0"
  shows "compare_masks g bits_a bits_b j =
           Inr ((drop_bit (nat (nb_unused_bits_row_b g)) (bits_a ! nat j)
                   AND bits_b ! nat (j + nb_unused_masks_row_b g)) OR
                (bits_a ! nat j AND
                   (if has_row_b_additional_mask g
                    then drop_bit (nat (32 - nb_unused_bits_row_b g))
                           (bits_b ! nat (j + nb_unused_masks_row_b g + 1))
                    else 0)) \<noteq> 0)"
proof -
  have a: "read_at bits_a j = Inr (bits_a ! nat j)"
    using assms by (simp add: read_at_def)
  have b: "read_at bits_b (j + nb_unused_masks_row_b g)
             = Inr (bits_b ! nat (j + nb_unused_masks_row_b g))"
    using assms by (simp add: read_at_def)
  have c: "has_row_b_additional_mask g \<Longrightarrow>
             read_at bits_b (j + nb_unused_masks_row_b g + 1)
               = Inr (bits_b ! nat (j + nb_unused_masks_row_b g + 1))"
    using assms by (simp add: read_at_def)
  show ?thesis
    using assms(7-10)
    by (cases "has_row_b_additional_mask g")
       (simp_all add: compare_masks_def a b c shift_right_def)
qed

lemma word_nonzero_iff: "w \<noteq> 0 \<longleftrightarrow> (\<exists>m<32. bit w m)" for w :: Uint32
proof
  assume "w \<noteq> 0"
  then obtain m where "bit w m"
    by (auto simp add: bit_eq_iff)
  moreover from this have "m < 32"
    using bit_imp_le_length [of w m] by simp
  ultimately show "\<exists>m<32. bit w m"
    by blast
next
  assume "\<exists>m<32. bit w m"
  then show "w \<noteq> 0"
    by auto
qed

lemma row_bit_at:
  assumes "0 \<le> q" and "m < 32"
  shows "row_bit row (32 * q + (31 - int m)) \<longleftrightarrow> bit (row ! nat q) m"
proof -
  have "(32 * q + (31 - int m)) div 32 = q"
    using assms by (intro int_div_pos_eq [where r = "31 - int m"]) simp_all
  moreover have "(32 * q + (31 - int m)) mod 32 = 31 - int m"
    using assms by (intro int_mod_pos_eq [where q = q]) simp_all
  ultimately show ?thesis
    using assms by (simp add: row_bit_def)
qed

lemma div_mod_32_eq:
  assumes "0 \<le> r" and "r < 32"
  shows "(32 * q + r) div 32 = q" and "(32 * q + r) mod 32 = (r :: int)"
  using assms by (simp_all add: int_div_pos_eq [where r = r] int_mod_pos_eq [where q = q])

lemma bit_nonzero: "bit w m \<Longrightarrow> w \<noteq> 0" for w :: Uint32
  by auto

lemma stitched_compare:
  fixes ra rb :: "Uint32 list" and s :: nat
  assumes j: "0 \<le> j" and u: "0 \<le> u" and s: "s < 32" and flag: "flag \<longrightarrow> s \<noteq> 0"
  shows "(drop_bit s (ra ! nat j) AND rb ! nat (j + u)) OR
         (ra ! nat j AND (if flag then drop_bit (32 - s) (rb ! nat (j + u + 1)) else 0)) \<noteq> 0
         \<longleftrightarrow>
         (\<exists>c. c div 32 = j \<and> row_bit ra c \<and> row_bit rb (c + (32 * u + int s)) \<and>
              (flag \<or> c mod 32 + int s < 32))"
    (is "?w \<noteq> 0 \<longleftrightarrow> ?overlap")
proof
  assume "?w \<noteq> 0"
  then obtain m where m: "m < 32" "bit ?w m"
    using word_nonzero_iff [of ?w] by blast
  then consider
      (same) "bit (ra ! nat j) (s + m)" "bit (rb ! nat (j + u)) m"
    | (spill) "flag" "bit (ra ! nat j) m" "bit (rb ! nat (j + u + 1)) (32 - s + m)"
    by (auto simp add: bit_or_iff bit_and_iff bit_drop_bit_eq split: if_splits)
  then show ?overlap
  proof cases
    case same
    then have sm: "s + m < 32"
      using bit_imp_le_length [of "ra ! nat j" "s + m"] by simp
    define c where "c = 32 * j + (31 - int (s + m))"
    have "c div 32 = j" and cm: "c mod 32 = 31 - int (s + m)"
      unfolding c_def using sm by (simp_all add: div_mod_32_eq)
    moreover have "row_bit ra c"
      unfolding c_def using same sm j by (simp only: row_bit_at)
    moreover have "c + (32 * u + int s) = 32 * (j + u) + (31 - int m)"
      by (simp add: c_def)
    then have "row_bit rb (c + (32 * u + int s))"
      using same m j u by (simp only: row_bit_at)
    moreover have "c mod 32 + int s < 32"
      using cm by simp
    ultimately show ?thesis by blast
  next
    case spill
    then have ms: "32 - s + m < 32"
      using bit_imp_le_length [of "rb ! nat (j + u + 1)" "32 - s + m"] by simp
    define c where "c = 32 * j + (31 - int m)"
    have "c div 32 = j"
      unfolding c_def using m by (simp add: div_mod_32_eq)
    moreover have "row_bit ra c"
      unfolding c_def using spill m j by (simp only: row_bit_at)
    moreover have "c + (32 * u + int s) = 32 * (j + u + 1) + (31 - int (32 - s + m))"
      using ms s by (simp add: c_def)
    then have "row_bit rb (c + (32 * u + int s))"
      using spill ms j u by (simp only: row_bit_at)
    ultimately show ?thesis using spill by blast
  qed
next
  assume ?overlap
  then obtain c where c: "c div 32 = j" "row_bit ra c" "row_bit rb (c + (32 * u + int s))"
    "flag \<or> c mod 32 + int s < 32"
    by blast
  define r where "r = nat (c mod 32)"
  have r: "r < 32" "c mod 32 = int r"
    by (simp_all add: r_def)
  have cj: "c = 32 * j + int r"
    using c(1) r div_mult_mod_eq [of c 32] by simp
  have bit_a: "bit (ra ! nat j) (31 - r)"
    using c(1,2) r by (simp add: row_bit_def nat_diff_distrib')
  show "?w \<noteq> 0"
  proof (cases "r + s < 32")
    case True
    have "c + (32 * u + int s) = 32 * (j + u) + int (r + s)"
      by (simp add: cj)
    then have "(c + (32 * u + int s)) div 32 = j + u"
      and "(c + (32 * u + int s)) mod 32 = int (r + s)"
      using True by (simp_all only: div_mod_32_eq of_nat_0_le_iff)
    then have "bit (rb ! nat (j + u)) (nat (31 - int (r + s)))"
      using c(3) by (simp only: row_bit_def)
    moreover have "nat (31 - int (r + s)) = 31 - (r + s)"
      by simp
    ultimately have "bit (rb ! nat (j + u)) (31 - (r + s))"
      by (simp only:)
    moreover have "s + (31 - (r + s)) = 31 - r"
      using True by simp
    ultimately have "bit ?w (31 - (r + s))"
      using bit_a by (simp add: bit_or_iff bit_and_iff bit_drop_bit_eq)
    then show ?thesis
      by (rule bit_nonzero)
  next
    case False
    with c(4) r have flag: flag by simp
    have rs: "r + s - 32 < 32"
      using r s by simp
    have "c + (32 * u + int s) = 32 * (j + u + 1) + int (r + s - 32)"
      using False by (simp add: cj)
    then have "(c + (32 * u + int s)) div 32 = j + u + 1"
      and "(c + (32 * u + int s)) mod 32 = int (r + s - 32)"
      using rs by (simp_all only: div_mod_32_eq of_nat_0_le_iff)
    then have "bit (rb ! nat (j + u + 1)) (nat (31 - int (r + s - 32)))"
      using c(3) by (simp only: row_bit_def)
    moreover have "nat (31 - int (r + s - 32)) = 31 - (r + s - 32)"
      by simp
    ultimately have "bit (rb ! nat (j + u + 1)) (31 - (r + s - 32))"
      by (simp only:)
    moreover have "32 - s + (31 - r) = 31 - (r + s - 32)"
      using False r s by simp
    ultimately have "bit ?w (31 - r)"
      using bit_a flag by (simp add: bit_or_iff bit_and_iff bit_drop_bit_eq)
    then show ?thesis
      by (rule bit_nonzero)
  qed
qed

lemma compare_masks_columns:
  assumes "0 \<le> j" and "j < nb_masks_per_row_a g"
    and "nb_masks_per_row_a g \<le> int (length bits_a)"
    and "0 \<le> nb_unused_masks_row_b g"
    and "nb_masks_per_row_a g + nb_unused_masks_row_b g \<le> int (length bits_b)"
    and "has_row_b_additional_mask g \<longrightarrow>
           nb_masks_per_row_a g + nb_unused_masks_row_b g + 1 < int (length bits_b)"
    and "0 \<le> nb_unused_bits_row_b g" and "nb_unused_bits_row_b g < 32"
    and "nb_used_bits_row_b g = 32 - nb_unused_bits_row_b g"
    and "has_row_b_additional_mask g \<longrightarrow> nb_unused_bits_row_b g \<noteq> 0"
  shows "compare_masks g bits_a bits_b j =
           Inr (\<exists>c. c div 32 = j \<and> columns_meet g bits_a bits_b c)"
proof -
  define s where "s = nat (nb_unused_bits_row_b g)"
  have s: "s < 32" "nb_unused_bits_row_b g = int s" "nat (32 - nb_unused_bits_row_b g) = 32 - s"
    using assms(7,8) by (simp_all add: s_def)
  have flag: "has_row_b_additional_mask g \<longrightarrow> s \<noteq> 0"
    using assms(10) s by simp
  define w where "w = (drop_bit s (bits_a ! nat j) AND bits_b ! nat (j + nb_unused_masks_row_b g)) OR
      (bits_a ! nat j AND
         (if has_row_b_additional_mask g
          then drop_bit (32 - s) (bits_b ! nat (j + nb_unused_masks_row_b g + 1))
          else 0))"
  have v: "compare_masks g bits_a bits_b j = Inr (w \<noteq> 0)"
    using compare_masks_value [OF assms] by (simp only: w_def s_def [symmetric] s(3))
  have "w \<noteq> 0 \<longleftrightarrow>
          (\<exists>c. c div 32 = j \<and> row_bit bits_a c \<and>
               row_bit bits_b (c + (32 * nb_unused_masks_row_b g + int s)) \<and>
               (has_row_b_additional_mask g \<or> c mod 32 + int s < 32))"
    unfolding w_def by (rule stitched_compare [OF assms(1) assms(4) s(1) flag])
  then have "w \<noteq> 0 \<longleftrightarrow> (\<exists>c. c div 32 = j \<and> columns_meet g bits_a bits_b c)"
    by (simp only: columns_meet_def s(2))
  with v show ?thesis
    by (simp only:)
qed

lemma check_masks_columns:
  assumes "0 \<le> j"
    and "nb_masks_per_row_a g \<le> int (length bits_a)"
    and "0 \<le> nb_unused_masks_row_b g"
    and "nb_masks_per_row_a g + nb_unused_masks_row_b g \<le> int (length bits_b)"
    and "has_row_b_additional_mask g \<longrightarrow>
           nb_masks_per_row_a g + nb_unused_masks_row_b g + 1 < int (length bits_b)"
    and "0 \<le> nb_unused_bits_row_b g" and "nb_unused_bits_row_b g < 32"
    and "nb_used_bits_row_b g = 32 - nb_unused_bits_row_b g"
    and "has_row_b_additional_mask g \<longrightarrow> nb_unused_bits_row_b g \<noteq> 0"
  shows "check_masks g bits_a bits_b j =
           Inr (\<exists>c. 32 * j \<le> c \<and> c < 32 * nb_masks_per_row_a g \<and>
                    columns_meet g bits_a bits_b c)"
  using assms(1)
proof (induction "nat (nb_masks_per_row_a g - j)" arbitrary: j)
  case 0
  then have "\<not> j < nb_masks_per_row_a g" by simp
  then show ?case
    by (subst check_masks.simps) auto
next
  case (Suc n)
  then have j: "0 \<le> j" "j < nb_masks_per_row_a g"
    and n: "n = nat (nb_masks_per_row_a g - (j + 1))"
    by simp_all
  have here: "compare_masks g bits_a bits_b j =
                Inr (\<exists>c. c div 32 = j \<and> columns_meet g bits_a bits_b c)"
    using j assms(2-9) by (rule compare_masks_columns)
  have later: "check_masks g bits_a bits_b (j + 1) =
                 Inr (\<exists>c. 32 * (j + 1) \<le> c \<and> c < 32 * nb_masks_per_row_a g \<and>
                          columns_meet g bits_a bits_b c)"
    using n j by (intro Suc.hyps(1)) simp_all
  have in_word: "c div 32 = j \<longleftrightarrow> 32 * j \<le> c \<and> c < 32 * (j + 1)" for c
    using word_bounds [of c] by auto
  have split: "(\<exists>c. 32 * j \<le> c \<and> c < 32 * nb_masks_per_row_a g \<and>
                    columns_meet g bits_a bits_b c) \<longleftrightarrow>
               (\<exists>c. c div 32 = j \<and> columns_meet g bits_a bits_b c) \<or>
               (\<exists>c. 32 * (j + 1) \<le> c \<and> c < 32 * nb_masks_per_row_a g \<and>
                    columns_meet g bits_a bits_b c)"
    (is "?all \<longleftrightarrow> ?first \<or> ?rest")
  proof
    assume ?all
    then obtain c where c: "32 * j \<le> c" "c < 32 * nb_masks_per_row_a g"
      "columns_meet g bits_a bits_b c"
      by blast
    show "?first \<or> ?rest"
    proof (cases "c < 32 * (j + 1)")
      case True
      with c in_word [of c] show ?thesis by blast
    next
      case False
      with c show ?thesis by auto
    qed
  next
    assume "?first \<or> ?rest"
    then show ?all
    proof
      assume ?first
      then obtain c where c: "c div 32 = j" "columns_meet g bits_a bits_b c"
        by blast
      then have "32 * j \<le> c" "c < 32 * (j + 1)"
        using in_word [of c] by simp_all
      moreover have "32 * (j + 1) \<le> 32 * nb_masks_per_row_a g"
        using j by simp
      ultimately show ?all
        using c by (intro exI [of _ c]) simp
    next
      assume ?rest
      then obtain c where c: "32 * (j + 1) \<le> c" "c < 32 * nb_masks_per_row_a g"
        "columns_meet g bits_a bits_b c"
        by blast
      then have "32 * j \<le> c" by simp
      with c show ?all by blast
    qed
  qed
  show ?case
  proof (cases "\<exists>c. c div 32 = j \<and> columns_meet g bits_a bits_b c")
    case True
    with here have "compare_masks g bits_a bits_b j = Inr True"
      by (simp only:)
    then have "check_masks g bits_a bits_b j = Inr True"
      by (subst check_masks.simps) (simp add: j)
    with True split show ?thesis
      by (simp only:) simp
  next
    case False
    with here have "compare_masks g bits_a bits_b j = Inr False"
      by (simp only:)
    then have "check_masks g bits_a bits_b j = check_masks g bits_a bits_b (j + 1)"
      by (subst check_masks.simps) (simp add: j)
    with False split later show ?thesis
      by (simp only:) simp
  qed
qed

lemma check_rows_columns:
  assumes "0 \<le> i"
    and "0 \<le> rows_a_start g"
    and "rows_a_start g + intersection_h g \<le> int (length (rows_a g))"
    and "0 \<le> rows_b_start g"
    and "rows_b_start g + intersection_h g \<le> int (length (rows_b g))"
    and "list_all (\<lambda>row. nb_masks_per_row_a g \<le> int (length row)) (rows_a g)"
    and "0 \<le> nb_unused_masks_row_b g"
    and "list_all (\<lambda>row. nb_masks_per_row_a g + nb_unused_masks_row_b g \<le> int (length row) \<and>
                     (has_row_b_additional_mask g \<longrightarrow>
                        nb_masks_per_row_a g + nb_unused_masks_row_b g + 1 < int (length row)))
           (rows_b g)"
    and "0 \<le> nb_unused_bits_row_b g" and "nb_unused_bits_row_b g < 32"
    and "nb_used_bits_row_b g = 32 - nb_unused_bits_row_b g"
    and "has_row_b_additional_mask g \<longrightarrow> nb_unused_bits_row_b g \<noteq> 0"
  shows "check_rows g i =
           Inr (\<exists>r c. i \<le> r \<and> r < intersection_h g \<and>
                      0 \<le> c \<and> c < 32 * nb_masks_per_row_a g \<and>
                      columns_meet g (rows_a g ! nat (rows_a_start g + r))
                                     (rows_b g ! nat (rows_b_start g + r)) c)"
  using assms(1)
proof (induction "nat (intersection_h g - i)" arbitrary: i)
  case 0
  then have "\<not> i < intersection_h g" by simp
  then show ?case
    by (subst check_rows.simps) auto
next
  case (Suc n)
  then have i: "0 \<le> i" "i < intersection_h g"
    and n: "n = nat (intersection_h g - (i + 1))"
    by simp_all
  define ra where "ra = rows_a g ! nat (rows_a_start g + i)"
  define rb where "rb = rows_b g ! nat (rows_b_start g + i)"
  define meet where "meet r c \<longleftrightarrow> 0 \<le> c \<and> c < 32 * nb_masks_per_row_a g \<and>
      columns_meet g (rows_a g ! nat (rows_a_start g + r)) (rows_b g ! nat (rows_b_start g + r)) c"
    for r c
  have ia: "nat (rows_a_start g + i) < length (rows_a g)"
    and ib: "nat (rows_b_start g + i) < length (rows_b g)"
    using i assms(2-5) by simp_all
  have read_a: "read_at (rows_a g) (rows_a_start g + i) = Inr ra"
    and read_b: "read_at (rows_b g) (rows_b_start g + i) = Inr rb"
    using i assms(2-5) by (simp_all add: read_at_def ra_def rb_def)
  have len_a: "nb_masks_per_row_a g \<le> int (length ra)"
    using assms(6) ia by (simp add: list_all_length ra_def)
  have len_b: "nb_masks_per_row_a g + nb_unused_masks_row_b g \<le> int (length rb)"
    "has_row_b_additional_mask g \<longrightarrow>
       nb_masks_per_row_a g + nb_unused_masks_row_b g + 1 < int (length rb)"
    using assms(8) ib by (simp_all add: list_all_length rb_def)
  have "check_masks g ra rb 0 =
          Inr (\<exists>c. 32 * 0 \<le> c \<and> c < 32 * nb_masks_per_row_a g \<and> columns_meet g ra rb c)"
    using len_a assms(7) len_b assms(9-12) by (intro check_masks_columns) simp_all
  then have masks: "check_masks g ra rb 0 = Inr (\<exists>c. meet i c)"
    by (simp add: meet_def ra_def rb_def)
  have later: "check_rows g (i + 1) = Inr (\<exists>r c. i + 1 \<le> r \<and> r < intersection_h g \<and> meet r c)"
    unfolding meet_def using n i by (intro Suc.hyps(1)) simp_all
  have split: "(\<exists>r c. i \<le> r \<and> r < intersection_h g \<and> meet r c) \<longleftrightarrow>
               (\<exists>c. meet i c) \<or> (\<exists>r c. i + 1 \<le> r \<and> r < intersection_h g \<and> meet r c)"
    (is "?all \<longleftrightarrow> ?first \<or> ?rest")
  proof
    assume ?all
    then obtain r c where rc: "i \<le> r" "r < intersection_h g" "meet r c"
      by blast
    show "?first \<or> ?rest"
    proof (cases "r = i")
      case True
      with rc show ?thesis by blast
    next
      case False
      with rc have "i + 1 \<le> r" by simp
      with rc show ?thesis by blast
    qed
  next
    assume "?first \<or> ?rest"
    then show ?all
    proof
      assume ?first
      with i show ?all by (metis order_refl)
    next
      assume ?rest
      then obtain r c where rc: "i + 1 \<le> r" "r < intersection_h g" "meet r c"
        by blast
      then have "i \<le> r" by simp
      with rc show ?all by blast
    qed
  qed
  have "check_rows g i = Inr (\<exists>r c. i \<le> r \<and> r < intersection_h g \<and> meet r c)"
  proof (cases "\<exists>c. meet i c")
    case True
    with masks have "check_masks g ra rb 0 = Inr True"
      by (simp only:)
    then have "check_rows g i = Inr True"
      by (subst check_rows.simps) (simp add: i read_a read_b)
    with True split show ?thesis
      by (simp only:) simp
  next
    case False
    with masks have "check_masks g ra rb 0 = Inr False"
      by (simp only:)
    then have "check_rows g i = check_rows g (i + 1)"
      by (subst check_rows.simps) (simp add: i read_a read_b)
    with False split later show ?thesis
      by (simp only:) simp
  qed
  then show ?case
    by (simp only: meet_def)
qed

text \<open>
  For bitmaps of the constructor's shape, columns and rows of the intersection are
  points of the plane: \<open>check_collision\<close> returns true exactly when the two bitmaps
  have an opaque pixel at the same point and, unless \<open>has_row_b_additional_mask\<close>
  holds, that pixel of row b does not lie in the mask after the one compared.
\<close>

lemma nb_masks_covers: "0 \<le> n \<Longrightarrow> n \<le> 32 * nb_masks n"
  using word_bounds [of "n + 31"] by (simp add: nb_masks_nonneg)

lemma columns_pixels:
  assumes wfA: "well_formed A" and wfB: "well_formed B"
    and clearA: "trailing_bits_clear A" and clearB: "trailing_bits_clear B"
    and xs: "rect_x lb \<le> rect_x la"
    and overlap: "check_rectangle_collision (bounding_box A la) (bounding_box B lb)"
    and rows: "rows_a g = bits A" "rows_b g = bits B"
    and starts: "rows_a_start g = max (rect_y la) (rect_y lb) - rect_y la"
      "rows_b_start g = max (rect_y la) (rect_y lb) - rect_y lb"
    and ih: "intersection_h g = min (rect_y la + height A) (rect_y lb + height B)
                                  - max (rect_y la) (rect_y lb)"
    and nb: "nb_masks_per_row_a g =
               nb_masks (min (rect_x la + width A) (rect_x lb + width B) - rect_x la)"
    and ob: "32 * nb_unused_masks_row_b g + nb_unused_bits_row_b g = rect_x la - rect_x lb"
    and us: "0 \<le> nb_unused_masks_row_b g" "0 \<le> nb_unused_bits_row_b g"
      "nb_unused_bits_row_b g < 32"
    and fits: "nb_masks_per_row_a g \<le> nb_integers_per_row A"
      "nb_masks_per_row_a g + nb_unused_masks_row_b g \<le> nb_integers_per_row B"
      "has_row_b_additional_mask g \<longrightarrow>
         nb_masks_per_row_a g + nb_unused_masks_row_b g + 1 < nb_integers_per_row B"
  shows "(\<exists>r c. 0 \<le> r \<and> r < intersection_h g \<and> 0 \<le> c \<and> c < 32 * nb_masks_per_row_a g \<and>
                columns_meet g (rows_a g ! nat (rows_a_start g + r))
                               (rows_b g ! nat (rows_b_start g + r)) c)
         \<longleftrightarrow>
         (\<exists>px py. opaque_at A la px py \<and> opaque_at B lb px py \<and>
                   (has_row_b_additional_mask g \<or>
                    (px - rect_x la) mod 32 + nb_unused_bits_row_b g < 32))"
    (is "?columns \<longleftrightarrow> ?pixels")
proof -
  define xa ya xb yb where "xa = rect_x la" and "ya = rect_y la"
    and "xb = rect_x lb" and "yb = rect_y lb"
  define iy where "iy = max ya yb"
  define iw where "iw = min (xa + width A) (xb + width B) - xa"
  define off where "off = xa - xb"
  note names = xa_def ya_def xb_def yb_def
  have ov: "xb < xa + width A" "xa < xb + width B" "yb < ya + height A" "ya < yb + height B"
    using overlap by (simp_all add: check_rectangle_collision_iff bounding_box_def names)
  have pos: "0 < width A" "0 < width B"
    using wfA wfB by (simp_all add: well_formed_def)
  have iw: "0 < iw" "iw \<le> width A" "off + iw \<le> width B" and off: "0 \<le> off"
    using ov xs pos by (simp_all add: iw_def off_def names)
  have cover: "iw \<le> 32 * nb_masks_per_row_a g"
    using iw nb_masks_covers [of iw] by (simp add: nb iw_def names)
  have ob': "32 * nb_unused_masks_row_b g + nb_unused_bits_row_b g = off"
    using ob by (simp add: off_def names)
  have ih': "intersection_h g = min (ya + height A) (yb + height B) - iy"
    using ih by (simp add: iy_def names)
  have sa: "rows_a_start g = iy - ya" and sb: "rows_b_start g = iy - yb"
    using starts by (simp_all add: iy_def names)
  have bitA: "pixel_bit A row c \<longleftrightarrow>
                0 \<le> row \<and> row < height A \<and> 0 \<le> c \<and> c < width A \<and>
                row_bit (rows_a g ! nat row) c" for row c
    by (simp add: pixel_bit_def rows)
  have bitB: "pixel_bit B row c \<longleftrightarrow>
                0 \<le> row \<and> row < height B \<and> 0 \<le> c \<and> c < width B \<and>
                row_bit (rows_b g ! nat row) c" for row c
    by (simp add: pixel_bit_def rows)
  show ?thesis
  proof
    assume ?columns
    then obtain r c where r: "0 \<le> r" "r < intersection_h g"
      and c: "0 \<le> c" "c < 32 * nb_masks_per_row_a g"
      and meet: "columns_meet g (rows_a g ! nat (rows_a_start g + r))
                               (rows_b g ! nat (rows_b_start g + r)) c"
      by blast
    from meet have ba: "row_bit (rows_a g ! nat (iy - ya + r)) c"
      and bb: "row_bit (rows_b g ! nat (iy - yb + r)) (c + off)"
      and third: "has_row_b_additional_mask g \<or> c mod 32 + nb_unused_bits_row_b g < 32"
      by (simp_all add: columns_meet_def sa sb ob')
    have rowA: "0 \<le> iy - ya + r" "iy - ya + r < height A"
      and rowB: "0 \<le> iy - yb + r" "iy - yb + r < height B"
      using r ih' by (simp_all add: iy_def)
    have "c < 32 * nb_integers_per_row A"
      using c fits(1) by simp
    then have cA: "c < width A"
      using clearA rowA ba unfolding trailing_bits_clear_def rows [symmetric]
      by (metis not_le)
    have "c + off < 32 * nb_integers_per_row B"
    proof (cases "has_row_b_additional_mask g")
      case True
      then have "nb_masks_per_row_a g + nb_unused_masks_row_b g + 1 < nb_integers_per_row B"
        using fits(3) by simp
      then show ?thesis
        using c us ob' by simp
    next
      case False
      with third have "c mod 32 + nb_unused_bits_row_b g < 32" by simp
      moreover have "c div 32 < nb_masks_per_row_a g"
        using c word_bounds [of c] by simp
      moreover have "c = 32 * (c div 32) + c mod 32"
        by simp
      ultimately show ?thesis
        using fits(2) ob' by linarith
    qed
    then have cB: "c + off < width B"
      using clearB rowB bb unfolding trailing_bits_clear_def rows [symmetric]
      by (metis not_le)
    have "pixel_bit A (iy - ya + r) c"
      using rowA c cA ba by (simp only: bitA)
    moreover have "iy + r - ya = iy - ya + r" and "xa + c - xa = c"
      by simp_all
    ultimately have "opaque_at A la (xa + c) (iy + r)"
      by (simp only: opaque_at_def names [symmetric])
    moreover have "0 \<le> c + off"
      using c off by simp
    then have "pixel_bit B (iy - yb + r) (c + off)"
      using rowB cB bb by (simp only: bitB)
    moreover have "iy + r - yb = iy - yb + r" and "xa + c - xb = c + off"
      by (simp_all add: off_def)
    ultimately have "opaque_at B lb (xa + c) (iy + r)"
      by (simp only: opaque_at_def names [symmetric])
    moreover have "has_row_b_additional_mask g \<or>
                   (xa + c - xa) mod 32 + nb_unused_bits_row_b g < 32"
      using third by simp
    ultimately show ?pixels
      using \<open>opaque_at A la (xa + c) (iy + r)\<close>
      unfolding names [symmetric] by blast
  next
    assume ?pixels
    then obtain px py where a: "opaque_at A la px py" and b: "opaque_at B lb px py"
      and third: "has_row_b_additional_mask g \<or>
                  (px - xa) mod 32 + nb_unused_bits_row_b g < 32"
      unfolding names [symmetric] by blast
    define c r where "c = px - xa" and "r = py - iy"
    from a have pa: "0 \<le> py - ya" "py - ya < height A" "0 \<le> c" "c < width A"
      "row_bit (rows_a g ! nat (py - ya)) c"
      by (simp_all add: opaque_at_def bitA names [symmetric] c_def)
    from b have pb: "0 \<le> py - yb" "py - yb < height B" "0 \<le> px - xb" "px - xb < width B"
      "row_bit (rows_b g ! nat (py - yb)) (px - xb)"
      by (simp_all add: opaque_at_def bitB names [symmetric])
    have r: "0 \<le> r" "r < intersection_h g"
      using pa pb by (simp_all add: r_def iy_def ih')
    have "c < iw"
      using pa pb by (simp add: c_def iw_def)
    with cover have c: "c < 32 * nb_masks_per_row_a g"
      by simp
    have e: "rows_a_start g + r = py - ya" "rows_b_start g + r = py - yb"
      "c + off = px - xb"
      by (simp_all add: sa sb r_def c_def off_def)
    have "row_bit (rows_a g ! nat (rows_a_start g + r)) c"
      using pa(5) by (simp only: e)
    moreover have "row_bit (rows_b g ! nat (rows_b_start g + r)) (c + off)"
      using pb(5) by (simp only: e)
    moreover have "has_row_b_additional_mask g \<or> c mod 32 + nb_unused_bits_row_b g < 32"
      using third by (simp only: c_def)
    ultimately have "columns_meet g (rows_a g ! nat (rows_a_start g + r))
                             (rows_b g ! nat (rows_b_start g + r)) c"
      by (simp only: columns_meet_def ob')
    with r pa(3) c show ?columns
      by blast
  qed
qed

lemma check_collision_pixels:
  assumes wf1: "well_formed this" and wf2: "well_formed other"
    and clear1: "trailing_bits_clear this" and clear2: "trailing_bits_clear other"
    and overlap: "check_rectangle_collision (bounding_box this location1)
                                            (bounding_box other location2)"
    and g: "g = assign_rows this other location1 location2"
    and shift: "has_row_b_additional_mask g \<longrightarrow> nb_unused_bits_row_b g \<noteq> 0"
  shows "check_collision this other location1 location2 =
           Inr (\<exists>px py. opaque_at this location1 px py \<and> opaque_at other location2 px py \<and>
                   (has_row_b_additional_mask g \<or>
                    (px - max (rect_x location1) (rect_x location2)) mod 32
                      + nb_unused_bits_row_b g < 32))"
proof -
  define A where "A = bitmap_a this other location1 location2"
  define B where "B = bitmap_b this other location1 location2"
  note b = assign_rows_bounds [OF wf1 wf2 overlap g A_def B_def]
  have wfA: "well_formed A" and wfB: "well_formed B"
    using wf1 wf2 by (simp_all add: A_def B_def bitmap_a_def bitmap_b_def)
  have clearA: "trailing_bits_clear A" and clearB: "trailing_bits_clear B"
    using clear1 clear2 by (simp_all add: A_def B_def bitmap_a_def bitmap_b_def)
  have lenA: "int (length (rows_a g)) = height A"
    and lenB: "int (length (rows_b g)) = height B"
    using b wfA wfB by (simp_all add: well_formed_def)
  have rowsA: "list_all (\<lambda>row. nb_masks_per_row_a g \<le> int (length row)) (rows_a g)"
    using b wfA by (simp add: well_formed_def list_all_iff)
  have rowsB: "list_all (\<lambda>row.
                  nb_masks_per_row_a g + nb_unused_masks_row_b g \<le> int (length row) \<and>
                  (has_row_b_additional_mask g \<longrightarrow>
                     nb_masks_per_row_a g + nb_unused_masks_row_b g + 1 < int (length row)))
               (rows_b g)"
    using b wfB by (simp add: well_formed_def list_all_iff)
  have "check_rows g 0 =
           Inr (\<exists>r c. 0 \<le> r \<and> r < intersection_h g \<and>
                      0 \<le> c \<and> c < 32 * nb_masks_per_row_a g \<and>
                      columns_meet g (rows_a g ! nat (rows_a_start g + r))
                                     (rows_b g ! nat (rows_b_start g + r)) c)"
    using b lenA lenB rowsA rowsB shift by (intro check_rows_columns) simp_all
  then have run: "check_collision this other location1 location2 =
           Inr (\<exists>r c. 0 \<le> r \<and> r < intersection_h g \<and>
                      0 \<le> c \<and> c < 32 * nb_masks_per_row_a g \<and>
                      columns_meet g (rows_a g ! nat (rows_a_start g + r))
                                     (rows_b g ! nat (rows_b_start g + r)) c)"
    using overlap by (simp add: check_collision_def g)
  have "(\<exists>r c. 0 \<le> r \<and> r < intersection_h g \<and> 0 \<le> c \<and> c < 32 * nb_masks_per_row_a g \<and>
                columns_meet g (rows_a g ! nat (rows_a_start g + r))
                               (rows_b g ! nat (rows_b_start g + r)) c)
        \<longleftrightarrow>
        (\<exists>px py. opaque_at this location1 px py \<and> opaque_at other location2 px py \<and>
                  (has_row_b_additional_mask g \<or>
                   (px - max (rect_x location1) (rect_x location2)) mod 32
                     + nb_unused_bits_row_b g < 32))"
  proof (cases "rect_x location1 > rect_x location2")
    case True
    then have AB: "A = this" "B = other"
      by (simp_all add: A_def B_def bitmap_a_def bitmap_b_def)
    have x: "max (rect_x location1) (rect_x location2) = rect_x location1"
      and xs: "rect_x location2 \<le> rect_x location1"
      and off: "0 \<le> rect_x location1 - rect_x location2"
      using True by simp_all
    have geq: "g = assign_rows this other location1 location2"
      by (rule g)
    show ?thesis
      unfolding x
      using b off
      by (intro columns_pixels [OF wf1 wf2 clear1 clear2 xs overlap])
         (simp_all add: g assign_rows_this_right [OF True] AB
                        sdiv_32_nonneg smod_32_nonneg)
  next
    case False
    then have AB: "A = other" "B = this"
      by (simp_all add: A_def B_def bitmap_a_def bitmap_b_def)
    have x: "max (rect_x location1) (rect_x location2) = rect_x location2"
      and xs: "rect_x location1 \<le> rect_x location2"
      and off: "0 \<le> rect_x location2 - rect_x location1"
      using False by simp_all
    have overlap': "check_rectangle_collision (bounding_box other location2)
                                              (bounding_box this location1)"
      using overlap by (simp add: check_rectangle_collision_commute)
    have "(\<exists>r c. 0 \<le> r \<and> r < intersection_h g \<and> 0 \<le> c \<and> c < 32 * nb_masks_per_row_a g \<and>
                columns_meet g (rows_a g ! nat (rows_a_start g + r))
                               (rows_b g ! nat (rows_b_start g + r)) c)
        \<longleftrightarrow>
        (\<exists>px py. opaque_at other location2 px py \<and> opaque_at this location1 px py \<and>
                  (has_row_b_additional_mask g \<or>
                   (px - rect_x location2) mod 32 + nb_unused_bits_row_b g < 32))"
      using b off
      by (intro columns_pixels [OF wf2 wf1 clear2 clear1 xs overlap'])
         (simp_all add: g assign_rows_other_right [OF False] AB
                        sdiv_32_nonneg smod_32_nonneg min.commute max.commute)
    then show ?thesis
      unfolding x by blast
  qed
  with run show ?thesis
    by (simp only:)
qed

lemma PixelBits_new_shape:
  assumes "PixelBits_new junk surface image_position = Inr p"
    and "frame_in_buffer surface image_position"
  shows "well_formed p \<and> trailing_bits_clear p"
proof -
  have bpp: "BitsPerPixel surface = 8"
    using assms(1) by (auto simp add: PixelBits_new_def DIE_def split: if_splits)
  obtain q where q: "PixelBits_new junk surface image_position = Inr q"
    "width q = rect_w image_position" "height q = rect_h image_position"
    "nb_integers_per_row q = nb_masks (rect_w image_position)"
    "int (length (bits q)) = rect_h image_position"
    and built: "\<forall>r. 0 \<le> r \<and> r < rect_h image_position \<longrightarrow>
              row_built surface (ucast (colorkey surface)) (rect_w image_position)
                (source_index surface image_position r 0) (bits q ! nat r)"
    using PixelBits_new_correct [OF bpp assms(2), of junk] by blast
  have pq: "p = q"
    using assms(1) q(1) by simp
  have pos: "0 < rect_w image_position" "0 < rect_h image_position"
    using assms(2) by (simp_all add: frame_in_buffer_def)
  have len: "int (length row) = nb_masks (rect_w image_position)" if "row \<in> set (bits q)" for row
  proof -
    from that obtain n where n: "n < length (bits q)" "row = bits q ! n"
      by (auto simp add: in_set_conv_nth)
    then have "0 \<le> int n \<and> int n < rect_h image_position"
      using q(5) by simp
    with built have "row_built surface (ucast (colorkey surface)) (rect_w image_position)
                       (source_index surface image_position (int n) 0) (bits q ! nat (int n))"
      by blast
    with n show ?thesis
      by (simp add: row_built_def)
  qed
  have "well_formed q"
    using q pos len by (simp add: well_formed_def list_all_iff)
  moreover have "trailing_bits_clear q"
    using q built by (simp add: trailing_bits_clear_def row_built_def)
  ultimately show ?thesis
    by (simp add: pq)
qed

lemma check_collision_undefined_shift:
  assumes wf1: "well_formed this" and wf2: "well_formed other"
    and overlap: "check_rectangle_collision (bounding_box this location1)
                                            (bounding_box other location2)"
    and g: "g = assign_rows this other location1 location2"
    and aligned: "nb_unused_bits_row_b g = 0"
    and flag: "has_row_b_additional_mask g"
  shows "check_collision this other location1 location2 = Inl UndefinedShift"
proof -
  note b = assign_rows_bounds [OF wf1 wf2 overlap g refl refl]
  define ra where "ra = rows_a g ! nat (rows_a_start g + 0)"
  define rb where "rb = rows_b g ! nat (rows_b_start g + 0)"
  have wfA: "well_formed (bitmap_a this other location1 location2)"
    and wfB: "well_formed (bitmap_b this other location1 location2)"
    using wf1 wf2 by (simp_all add: bitmap_a_def bitmap_b_def)
  have lenA: "int (length (rows_a g)) = height (bitmap_a this other location1 location2)"
    and lenB: "int (length (rows_b g)) = height (bitmap_b this other location1 location2)"
    using b wfA wfB by (simp_all add: well_formed_def)
  have "rows_a_start g < int (length (rows_a g))"
    and "rows_b_start g < int (length (rows_b g))"
    using b lenA lenB by linarith+
  then have ia: "nat (rows_a_start g) < length (rows_a g)"
    and ib: "nat (rows_b_start g) < length (rows_b g)"
    using b by linarith+
  have read_a: "read_at (rows_a g) (rows_a_start g + 0) = Inr ra"
    and read_b: "read_at (rows_b g) (rows_b_start g + 0) = Inr rb"
    using ia ib b by (simp_all add: read_at_def ra_def rb_def)
  have len_a: "int (length ra) = nb_integers_per_row (bitmap_a this other location1 location2)"
    using wfA ia b by (simp add: well_formed_def list_all_length ra_def)
  have len_b: "int (length rb) = nb_integers_per_row (bitmap_b this other location1 location2)"
    using wfB ib b by (simp add: well_formed_def list_all_length rb_def)
  have "compare_masks g ra rb 0 = Inl UndefinedShift"
    using aligned flag b len_a len_b
    by (simp add: compare_masks_def read_at_def shift_right_def)
  then have "check_masks g ra rb 0 = Inl UndefinedShift"
    using b by (subst check_masks.simps) simp
  then have "check_rows g 0 = Inl UndefinedShift"
    using b read_a read_b by (subst check_rows.simps) simp
  then show ?thesis
    using overlap by (simp add: check_collision_def g)
qed

lemma check_collision_sound:
  assumes "well_formed this" and "well_formed other"
    and "trailing_bits_clear this" and "trailing_bits_clear other"
    and "check_collision this other location1 location2 = Inr True"
  shows "\<exists>px py. opaque_at this location1 px py \<and> opaque_at other location2 px py"
proof -
  define g where "g = assign_rows this other location1 location2"
  have overlap: "check_rectangle_collision (bounding_box this location1)
                                           (bounding_box other location2)"
    using assms(5) by (auto simp add: check_collision_def split: if_splits)
  show ?thesis
  proof (cases "has_row_b_additional_mask g \<and> nb_unused_bits_row_b g = 0")
    case False
    then have "has_row_b_additional_mask g \<longrightarrow> nb_unused_bits_row_b g \<noteq> 0"
      by simp
    from check_collision_pixels [OF assms(1-4) overlap g_def this] assms(5)
    show ?thesis by auto
  next
    case True
    then have "check_collision this other location1 location2 = Inl UndefinedShift"
      using check_collision_undefined_shift [OF assms(1,2) overlap g_def] by simp
    with assms(5) show ?thesis by simp
  qed
qed

lemma check_collision_exact:
  assumes "well_formed this" and "well_formed other"
    and "trailing_bits_clear this" and "trailing_bits_clear other"
    and "check_rectangle_collision (bounding_box this location1)
                                   (bounding_box other location2)"
    and "g = assign_rows this other location1 location2"
    and "has_row_b_additional_mask g \<longleftrightarrow> nb_unused_bits_row_b g \<noteq> 0"
  shows "check_collision this other location1 location2 =
           Inr (\<exists>px py. opaque_at this location1 px py \<and> opaque_at other location2 px py)"
proof -
  have shift: "has_row_b_additional_mask g \<longrightarrow> nb_unused_bits_row_b g \<noteq> 0"
    using assms(7) by simp
  note b = assign_rows_bounds [OF assms(1,2,5,6) refl refl]
  have "has_row_b_additional_mask g \<or> r mod 32 + nb_unused_bits_row_b g < 32" for r :: int
  proof (cases "has_row_b_additional_mask g")
    case False
    with assms(7) have "nb_unused_bits_row_b g = 0" by simp
    then show ?thesis by simp
  qed simp
  then show ?thesis
    using check_collision_pixels [OF assms(1-6) shift] by simp
qed

section \<open>Runs of the collision test\<close>

text \<open>The bitmaps of the runs below are what the constructor builds from one-row
  surfaces with a single pixel off the colour key, whatever the fresh rows held.\<close>

lemma frames_constructed:
  "PixelBits_new junk (strip_surface 2 1) (frame 2 1) = Inr frame_2x1"
  "PixelBits_new junk (strip_surface 64 32) (frame 64 1) = Inr frame_64x1"
  "PixelBits_new junk (strip_surface 1 0) (frame 1 1) = Inr frame_1x1"
  "PixelBits_new junk (strip_surface 96 32) (frame 96 1) = Inr frame_96x1"
  "PixelBits_new junk (strip_surface 128 64) (frame 128 1) = Inr frame_128x1"
  by code_simp+

text \<open>
  C2: \<open>has_row_b_additional_mask\<close> is to hold exactly when
  \<open>nb_masks_per_row_a + nb_unused_masks_row_b + 1 \<le> nb_integers_per_row\<close> of the
  bitmap of row b. With the 2 x 1 frame at x = 31 and the 64 x 1 frame at x = 0, row b
  is the 64 x 1 frame, the sum is 2 and the row has 2 masks, yet the flag that lines
  157 and 164 compute with \<open><\<close> is false.
\<close>

theorem additional_mask_off_by_one:
  "rows_b (assign_rows frame_2x1 frame_64x1 (location 31 0) (location 0 0)) = bits frame_64x1 \<and>
   nb_masks_per_row_a (assign_rows frame_2x1 frame_64x1 (location 31 0) (location 0 0)) +
   nb_unused_masks_row_b (assign_rows frame_2x1 frame_64x1 (location 31 0) (location 0 0)) + 1
     \<le> nb_integers_per_row frame_64x1 \<and>
   \<not> has_row_b_additional_mask (assign_rows frame_2x1 frame_64x1 (location 31 0) (location 0 0))"
  by code_simp

text \<open>
  C3: in the word-aligned case (\<open>nb_unused_bits_row_b = 0\<close>)
  \<open>has_row_b_additional_mask\<close> is to be false, so that no mask is shifted by 32 bits.
  With the 1 x 1 frame at x = 32 and the 128 x 1 frame at x = 0 the offset is 32, the
  flag is true, \<open>nb_used_bits_row_b\<close> is 32 and the run shifts a mask by 32 bits.
\<close>

theorem aligned_additional_mask:
  "nb_unused_bits_row_b (assign_rows frame_1x1 frame_128x1 (location 32 0) (location 0 0)) = 0 \<and>
   has_row_b_additional_mask (assign_rows frame_1x1 frame_128x1 (location 32 0) (location 0 0)) \<and>
   nb_used_bits_row_b (assign_rows frame_1x1 frame_128x1 (location 32 0) (location 0 0)) = 32 \<and>
   check_collision frame_1x1 frame_128x1 (location 32 0) (location 0 0) = Inl UndefinedShift"
  by code_simp

text \<open>
  C5: \<open>check_collision\<close> is to give the same answer when the two bitmaps and their
  positions are swapped. With the 96 x 1 frame and the 1 x 1 frame both at (0, 0), the
  call on the 96 x 1 frame shifts a mask by 32 bits, the call on the 1 x 1 frame
  returns false.
\<close>

theorem check_collision_not_symmetric:
  "check_collision frame_96x1 frame_1x1 (location 0 0) (location 0 0) = Inl UndefinedShift \<and>
   check_collision frame_1x1 frame_96x1 (location 0 0) (location 0 0) = Inr False"
  by code_simp

text \<open>
  C1: \<open>check_collision\<close> is to return true exactly when an opaque pixel of one bitmap
  and an opaque pixel of the other lie on the same point of the plane. With the
  2 x 1 frame at (31, 0) and the 64 x 1 frame at (0, 0) both have an opaque pixel at
  the point (32, 0), and \<open>check_collision\<close> returns false.
\<close>

theorem check_collision_misses_overlap:
  "opaque_at frame_2x1 (location 31 0) 32 0 \<and> opaque_at frame_64x1 (location 0 0) 32 0 \<and>
   check_collision frame_2x1 frame_64x1 (location 31 0) (location 0 0) = Inr False"
proof -
  have "opaque_at frame_2x1 (location 31 0) 32 0"
    by (simp add: opaque_at_def pixel_bit_def row_bit_def frame_2x1_def location_def)
  moreover have "opaque_at frame_64x1 (location 0 0) 32 0"
    by (simp add: opaque_at_def pixel_bit_def row_bit_def frame_64x1_def location_def)
  moreover have "check_collision frame_2x1 frame_64x1 (location 31 0) (location 0 0) = Inr False"
    by code_simp
  ultimately show ?thesis by simp
qed

end
